theory Spec2Isabelle
  imports Main "HOL-Library.Word"
begin

unbundle bit_operations_syntax

section \<open>Machine types\<close>

text \<open>
  The program runs on a 32-bit target: \<open>int\<close>, \<open>unsigned int\<close> and pointers are
  32-bit words, \<open>uint16_t\<close> and \<open>uint8_t\<close> are 16-bit and 8-bit words. A signed
  comparison of two \<open>int\<close>s is written with \<open>sint\<close>.
\<close>

type_synonym c_int = "32 word"
type_synonym c_uint = "32 word"
type_synonym uint8_t = "8 word"
type_synonym uint16_t = "16 word"

text \<open>
  What a C access outside an array is called in the model: the function returns
  the fault instead of a result.
\<close>

datatype fault = OutOfBounds

text \<open>The two's complement reading of a 32-bit word.\<close>

lemma sint_32:
  "sint (w :: 32 word) = (if uint w < 2 ^ 31 then uint w else uint w - 2 ^ 32)"
proof -
  have b: "0 \<le> uint w" "uint w < 2 ^ 32"
    using uint_lt2p [of w] by simp_all
  have s: "sint w = take_bit 32 (uint w + 2 ^ 31) - 2 ^ 31"
    by (simp add: sint_uint signed_take_bit_eq_take_bit_shift)
  show ?thesis
  proof (cases "uint w < 2 ^ 31")
    case True
    then have "take_bit 32 (uint w + 2 ^ 31) = uint w + 2 ^ 31"
      using b by (intro take_bit_int_eq_self) simp_all
    then show ?thesis using True s by simp
  next
    case False
    have "(uint w + 2 ^ 31) mod 2 ^ 32 = (uint w + 2 ^ 31 - 1 * 2 ^ 32) mod 2 ^ 32"
      using minus_mod_self2 [of "uint w + 2 ^ 31" "2 ^ 32"] by simp
    then have "take_bit 32 (uint w + 2 ^ 31) = take_bit 32 (uint w + 2 ^ 31 - 2 ^ 32)"
      by (simp add: take_bit_eq_mod)
    also have "\<dots> = uint w + 2 ^ 31 - 2 ^ 32"
      using False b by (intro take_bit_int_eq_self) simp_all
    finally show ?thesis using False s by simp
  qed
qed

lemma sint_of_nat_32: "k < 2 ^ 31 \<Longrightarrow> sint (of_nat k :: 32 word) = int k"
  by (simp add: signed_of_nat signed_take_bit_int_eq_self)

section \<open>app\_main.c: the bitplane encoder\<close>

definition DISPLAY_WIDTH :: c_int where
  "DISPLAY_WIDTH = 128"

definition DISPLAY_HEIGHT :: c_int where
  "DISPLAY_HEIGHT = 32"

text \<open>Meaning of the bits in a 16 bit DMA word.\<close>

definition BIT_R1 :: c_int where "BIT_R1 = push_bit 0 1"
definition BIT_G1 :: c_int where "BIT_G1 = push_bit 1 1"
definition BIT_B1 :: c_int where "BIT_B1 = push_bit 2 1"
definition BIT_R2 :: c_int where "BIT_R2 = push_bit 3 1"
definition BIT_G2 :: c_int where "BIT_G2 = push_bit 4 1"
definition BIT_B2 :: c_int where "BIT_B2 = push_bit 5 1"
definition BIT_A :: c_int where "BIT_A = push_bit 8 1"
definition BIT_B :: c_int where "BIT_B = push_bit 9 1"
definition BIT_C :: c_int where "BIT_C = push_bit 10 1"
definition BIT_D :: c_int where "BIT_D = push_bit 11 1"
definition BIT_LAT :: c_int where "BIT_LAT = push_bit 12 1"
definition BIT_OE :: c_int where "BIT_OE = push_bit 13 1"

text \<open>
  \<open>getPixel(buf, x, y)\<close>: the three bytes at \<open>(x + y * DISPLAY_WIDTH) * 3\<close>, red
  in bits 16..23, green in bits 8..15, blue in bits 0..7. The frame buffer is the
  list of its bytes; a read outside it is a fault.
\<close>

definition getPixel :: "uint8_t list \<Rightarrow> c_int \<Rightarrow> c_int \<Rightarrow> fault + c_int" where
  "getPixel buf x y =
     (let i = sint ((x + y * DISPLAY_WIDTH) * 3) in
      if 0 \<le> i \<and> i + 2 < int (length buf)
      then Inr (push_bit 16 (ucast (buf ! nat i))
                OR push_bit 8 (ucast (buf ! nat (i + 1)))
                OR ucast (buf ! nat (i + 2)))
      else Inl OutOfBounds)"

text \<open>
  The line bits of \<open>update_frame\<close>, computed once per row from the
  \<open>unsigned int y\<close>: \<open>y - 1\<close> wraps to \<open>0xFFFFFFFF\<close> at \<open>y = 0\<close>.
\<close>

definition line_bits :: "c_uint \<Rightarrow> c_int" where
  "line_bits y =
     (let lbits = 0;
          lbits = (if (y - 1) AND 1 \<noteq> 0 then lbits OR BIT_A else lbits);
          lbits = (if (y - 1) AND 2 \<noteq> 0 then lbits OR BIT_B else lbits);
          lbits = (if (y - 1) AND 4 \<noteq> 0 then lbits OR BIT_C else lbits);
          lbits = (if (y - 1) AND 8 \<noteq> 0 then lbits OR BIT_D else lbits)
      in lbits)"

text \<open>
  The body of the innermost loop of \<open>update_frame\<close>: the word stored by
  \<open>*p++ = v\<close> for plane \<open>pl\<close>, row \<open>y\<close> and column \<open>x\<close>. \<open>cnt\<close> is the macro
  \<open>BITPLANE_CNT\<close> and \<open>brightness\<close> the global variable of that name. The
  mask is \<open>1 << (8 - BITPLANE_CNT + pl)\<close>; the shift count is not negative as long
  as \<open>BITPLANE_CNT \<le> 8 + pl\<close>. The \<open>int v\<close> is cut to 16 bits by the store.
\<close>

definition update_frame_word ::
  "nat \<Rightarrow> c_int \<Rightarrow> uint8_t list \<Rightarrow> nat \<Rightarrow> c_uint \<Rightarrow> c_int \<Rightarrow> fault + uint16_t" where
  "update_frame_word cnt brightness framebuf pl y x =
     (let mask = push_bit (8 + pl - cnt) (1 :: c_int);
          v = line_bits y;
          v = (if sint brightness \<le> sint x then v OR BIT_OE else v);
          v = (if x = DISPLAY_WIDTH - 1 then v OR BIT_LAT else v)
      in case getPixel framebuf x y of
           Inl e \<Rightarrow> Inl e
         | Inr c1 \<Rightarrow>
             (case getPixel framebuf x (y + 16) of
                Inl e \<Rightarrow> Inl e
              | Inr c2 \<Rightarrow>
                  (let v = (if c1 AND push_bit 16 mask \<noteq> 0 then v OR BIT_R1 else v);
                       v = (if c1 AND push_bit 8 mask \<noteq> 0 then v OR BIT_G1 else v);
                       v = (if c1 AND push_bit 0 mask \<noteq> 0 then v OR BIT_B1 else v);
                       v = (if c2 AND push_bit 16 mask \<noteq> 0 then v OR BIT_R2 else v);
                       v = (if c2 AND push_bit 8 mask \<noteq> 0 then v OR BIT_G2 else v);
                       v = (if c2 AND push_bit 0 mask \<noteq> 0 then v OR BIT_B2 else v)
                   in Inr (ucast v))))"

text \<open>
  The two inner loops of \<open>update_frame\<close> for one plane: rows \<open>0..15\<close>, columns
  \<open>0..DISPLAY_WIDTH - 1\<close>, each word appended at \<open>p\<close>. The result is the new
  content of \<open>bitplane[backbuf_id][pl]\<close>, or the first fault.
\<close>

fun collect :: "('a \<Rightarrow> fault + 'b) \<Rightarrow> 'a list \<Rightarrow> fault + 'b list" where
  "collect f [] = Inr []"
| "collect f (a # as) =
     (case f a of
        Inl e \<Rightarrow> Inl e
      | Inr b \<Rightarrow> (case collect f as of Inl e \<Rightarrow> Inl e | Inr bs \<Rightarrow> Inr (b # bs)))"

definition update_frame_plane ::
  "nat \<Rightarrow> c_int \<Rightarrow> uint8_t list \<Rightarrow> nat \<Rightarrow> fault + uint16_t list" where
  "update_frame_plane cnt brightness framebuf pl =
     collect (\<lambda>(y, x). update_frame_word cnt brightness framebuf pl (of_nat y) (of_nat x))
       (List.product [0..<16] [0..<unat DISPLAY_WIDTH])"


section \<open>app\_main.c: the bitplane interleave schedule\<close>

text \<open>
  The inner loop of \<open>app_main\<close> that finds the plane to insert:
  \<open>ch = 0; for (j = 0; j < BITPLANE_CNT; j++) if (times[j] <= times[ch]) ch = j;\<close>
\<close>

definition find_plane :: "nat \<Rightarrow> int list \<Rightarrow> nat" where
  "find_plane cnt times' =
     fold (\<lambda>j ch. if times' ! j \<le> times' ! ch then j else ch) [0..<cnt] 0"

text \<open>
  The outer loop, \<open>k\<close> iterations from the counters \<open>times\<close>: each iteration
  finds \<open>ch\<close>, prints it (and stores \<open>bitplane[j][ch]\<close> in the next entry of both
  buffer lists), then adds \<open>1 << (BITPLANE_CNT - ch)\<close> to \<open>times[ch]\<close>. The
  result is the printed bitplane order. The counters are modelled as unbounded
  integers; \<open>times_bounded\<close> below shows that they never exceed
  \<open>2 ^ BITPLANE_CNT\<close>, so an \<open>int\<close> holds them.
\<close>

primrec insert_planes :: "nat \<Rightarrow> nat \<Rightarrow> int list \<Rightarrow> nat list" where
  "insert_planes cnt 0 times' = []"
| "insert_planes cnt (Suc k) times' =
     (let ch = find_plane cnt times'
      in ch # insert_planes cnt k (times'[ch := times' ! ch + 2 ^ (cnt - ch)]))"

text \<open>The counters after \<open>k\<close> iterations.\<close>

primrec times_after :: "nat \<Rightarrow> nat \<Rightarrow> int list \<Rightarrow> int list" where
  "times_after cnt 0 times' = times'"
| "times_after cnt (Suc k) times' =
     (let ch = find_plane cnt times'
      in times_after cnt k (times'[ch := times' ! ch + 2 ^ (cnt - ch)]))"

text \<open>
  \<open>int times[BITPLANE_CNT] = {0}\<close> and \<open>(1 << BITPLANE_CNT) - 1\<close> iterations.
\<close>

definition bitplane_order :: "nat \<Rightarrow> nat list" where
  "bitplane_order cnt = insert_planes cnt (2 ^ cnt - 1) (replicate cnt 0)"

section \<open>i2s\_parallel.c: descriptor chains\<close>

type_synonym c_ptr = "32 word"

definition DMA_MAX :: c_int where
  "DMA_MAX = 4096 - 4"

text \<open>
  Modelled from the spec: the declaration of \<open>i2s_parallel_buffer_desc_t\<close> is in
  \<open>i2s_parallel.h\<close>, which is not among the sources. A buffer segment is a
  memory pointer and a size; the pointer is an address (\<open>NULL\<close> is 0) and the
  size an unsigned 32-bit \<open>size_t\<close>.
\<close>

record i2s_parallel_buffer_desc_t =
  memory :: c_ptr
  size_buf :: c_uint

text \<open>
  A pointer to a DMA descriptor: the descriptor array it points into and the
  index of the element. The two arrays of one \<open>i2s_parallel_state_t\<close> are
  \<open>RingA\<close> (\<open>dmadesc_a\<close>) and \<open>RingB\<close> (\<open>dmadesc_b\<close>).
\<close>

datatype ring = RingA | RingB

datatype desc_ptr = DescPtr ring int

text \<open>
  The DMA descriptor \<open>lldesc_t\<close> of the ROM header \<open>rom/lldesc.h\<close>, with the
  fields \<open>fill_dma_desc\<close> assigns: \<open>size\<close> and \<open>length\<close> are 12-bit fields,
  \<open>offset\<close> has 5 bits, \<open>sosf\<close>, \<open>eof\<close> and \<open>owner\<close> one bit each;
  \<open>qe.stqe_next\<close> is the next-descriptor pointer.
\<close>

record lldesc_t =
  size_desc :: "12 word"
  length_desc :: "12 word"
  buf :: c_ptr
  eof :: "1 word"
  sosf :: "1 word"
  owner :: "1 word"
  stqe_next :: desc_ptr
  offset :: "5 word"

record i2s_parallel_state_t =
  dmadesc_a :: "lldesc_t list"
  dmadesc_b :: "lldesc_t list"
  desccount_a :: c_int
  desccount_b :: c_int

text \<open>
  \<open>calc_needed_dma_descs_for\<close>: the loop over \<open>desc[i]\<close> from the current
  index, with the running \<open>ret\<close>. The list is the array in memory; the loop
  ends at the first entry whose \<open>memory\<close> is \<open>NULL\<close>, and reading past the end of
  the array is a fault. The sum is computed in \<open>size_t\<close>, so the division is
  unsigned.
\<close>

fun calc_loop :: "i2s_parallel_buffer_desc_t list \<Rightarrow> c_int \<Rightarrow> fault + c_int" where
  "calc_loop [] ret = Inl OutOfBounds"
| "calc_loop (d # ds) ret =
     (if memory d = 0 then Inr ret
      else calc_loop ds (ret + (size_buf d + DMA_MAX - 1) div DMA_MAX))"

definition calc_needed_dma_descs_for :: "i2s_parallel_buffer_desc_t list \<Rightarrow> fault + c_int" where
  "calc_needed_dma_descs_for desc = calc_loop desc 0"

text \<open>
  The \<open>while (len)\<close> loop of \<open>fill_dma_desc\<close> for one buffer segment, from the
  descriptor array \<open>dmadesc\<close> (whose address is \<open>base\<close>), the index \<open>n\<close>, the
  remaining \<open>len\<close> and the pointer \<open>data\<close>; it returns the array and \<open>n\<close>. A
  write outside the array is a fault.
\<close>

function fill_while ::
  "ring \<Rightarrow> lldesc_t list \<Rightarrow> c_int \<Rightarrow> c_int \<Rightarrow> c_ptr \<Rightarrow> fault + (lldesc_t list \<times> c_int)" where
  "fill_while base dmadesc n len data =
     (if len = 0 then Inr (dmadesc, n)
      else
        (let dmalen = len;
             dmalen = (if sint DMA_MAX < sint dmalen then DMA_MAX else dmalen)
         in if 0 \<le> sint n \<and> sint n < int (length dmadesc)
            then fill_while base
                   (dmadesc[nat (sint n) := (dmadesc ! nat (sint n))
                      \<lparr>size_desc := ucast dmalen,
                       length_desc := ucast dmalen,
                       buf := data,
                       eof := 0,
                       sosf := 0,
                       owner := 1,
                       stqe_next := DescPtr base (sint (n + 1)),
                       offset := 0\<rparr>])
                   (n + 1) (len - dmalen) (data + dmalen)
            else Inl OutOfBounds))"
  by pat_completeness auto
termination
proof (relation "measure (\<lambda>(base, dmadesc, n, len, data). unat len)")
  show "wf (measure (\<lambda>(base, dmadesc, n, len, data). unat len))"
    by simp
next
  fix base :: ring and dmadesc :: "lldesc_t list" and n len data :: c_int
    and x xa :: c_int
  assume len: "len \<noteq> 0" and x: "x = len"
    and xa: "xa = (if sint DMA_MAX < sint x then DMA_MAX else x)"
  have "unat (len - xa) < unat len"
  proof (cases "sint DMA_MAX < sint len")
    case True
    have "uint DMA_MAX \<le> uint len"
      using True by (simp add: DMA_MAX_def sint_32 split: if_splits)
    then have "DMA_MAX \<le> len"
      by (simp add: word_le_def)
    then have "unat (len - DMA_MAX) = unat len - unat DMA_MAX"
      by (rule unat_sub)
    moreover have "0 < unat len"
      using len by (simp add: unat_gt_0)
    ultimately show ?thesis
      using True x xa by (simp add: DMA_MAX_def)
  next
    case False
    then show ?thesis using len x xa by (simp add: unat_gt_0)
  qed
  then show "((base,
        dmadesc[nat (sint n) := (dmadesc ! nat (sint n))
          \<lparr>size_desc := ucast xa, length_desc := ucast xa, buf := data, eof := 0,
           sosf := 0, owner := 1, stqe_next := DescPtr base (sint (n + 1)), offset := 0\<rparr>],
        n + 1, len - xa, data + xa),
       base, dmadesc, n, len, data)
      \<in> measure (\<lambda>(base, dmadesc, n, len, data). unat len)"
    by simp
qed

declare fill_while.simps [simp del]

text \<open>
  The \<open>for\<close> loop of \<open>fill_dma_desc\<close> over \<open>bufdesc[i]\<close> from the current
  index: \<open>int len = bufdesc[i].size\<close> keeps the 32 bits of the size.
\<close>

fun fill_for ::
  "ring \<Rightarrow> lldesc_t list \<Rightarrow> c_int \<Rightarrow> i2s_parallel_buffer_desc_t list
     \<Rightarrow> fault + (lldesc_t list \<times> c_int)" where
  "fill_for base dmadesc n [] = Inl OutOfBounds"
| "fill_for base dmadesc n (b # bs) =
     (if memory b = 0 then Inr (dmadesc, n)
      else
        (case fill_while base dmadesc n (size_buf b) (memory b) of
           Inl e \<Rightarrow> Inl e
         | Inr (dmadesc', n') \<Rightarrow> fill_for base dmadesc' n' bs))"

text \<open>
  \<open>fill_dma_desc\<close>: the loops from \<open>n = 0\<close>, then
  \<open>dmadesc[n - 1].qe.stqe_next = &dmadesc[0]\<close> (loop last back to first).
\<close>

definition fill_dma_desc ::
  "ring \<Rightarrow> lldesc_t list \<Rightarrow> i2s_parallel_buffer_desc_t list \<Rightarrow> fault + lldesc_t list" where
  "fill_dma_desc base dmadesc bufdesc =
     (case fill_for base dmadesc 0 bufdesc of
        Inl e \<Rightarrow> Inl e
      | Inr (dmadesc', n) \<Rightarrow>
          (let i = sint (n - 1)
           in if 0 \<le> i \<and> i < int (length dmadesc')
              then Inr (dmadesc'[nat i := (dmadesc' ! nat i)\<lparr>stqe_next := DescPtr base 0\<rparr>])
              else Inl OutOfBounds))"

text \<open>
  The two I2S peripherals of the chip, and \<open>i2snum\<close>. The global
  \<open>i2s_state[2]\<close> holds one pointer per peripheral, \<open>NULL\<close> (\<open>None\<close>) until
  \<open>i2s_parallel_setup\<close> has run.
\<close>

datatype i2s_dev_t = I2S0 | I2S1

fun i2snum :: "i2s_dev_t \<Rightarrow> nat" where
  "i2snum I2S0 = 0"
| "i2snum I2S1 = 1"

type_synonym i2s_state = "nat \<Rightarrow> i2s_parallel_state_t option"

definition i2s_state_init :: i2s_state where
  "i2s_state_init = (\<lambda>no. None)"

text \<open>
  The part of \<open>i2s_parallel_setup\<close> that allocates and fills the descriptors
  (the register writes are outside this model). \<open>bufa\<close> is the first buffer
  list; \<open>bufb\<close> is \<open>None\<close> when \<open>cfg->bufb\<close> is \<open>NULL\<close>. The allocation returns an
  array of \<open>desccount\<close> descriptors with arbitrary content \<open>junk\<close>; in single
  buffer mode \<open>dmadesc_b\<close> is never allocated.
\<close>

definition heap_caps_malloc :: "c_int \<Rightarrow> lldesc_t \<Rightarrow> lldesc_t list" where
  "heap_caps_malloc desccount junk = replicate (nat (sint desccount)) junk"

definition i2s_parallel_setup ::
  "i2s_state \<Rightarrow> i2s_dev_t \<Rightarrow> i2s_parallel_buffer_desc_t list
     \<Rightarrow> i2s_parallel_buffer_desc_t list option \<Rightarrow> lldesc_t \<Rightarrow> fault + i2s_state" where
  "i2s_parallel_setup st dev bufa bufb junk =
     (case calc_needed_dma_descs_for bufa of
        Inl e \<Rightarrow> Inl e
      | Inr count_a \<Rightarrow>
          (case fill_dma_desc RingA (heap_caps_malloc count_a junk) bufa of
             Inl e \<Rightarrow> Inl e
           | Inr descs_a \<Rightarrow>
               (case bufb of
                  None \<Rightarrow>
                    Inr (st(i2snum dev \<mapsto>
                      \<lparr>dmadesc_a = descs_a, dmadesc_b = [],
                       desccount_a = count_a, desccount_b = 0\<rparr>))
                | Some bufb' \<Rightarrow>
                    (case calc_needed_dma_descs_for bufb' of
                       Inl e \<Rightarrow> Inl e
                     | Inr count_b \<Rightarrow>
                         (case fill_dma_desc RingB (heap_caps_malloc count_b junk) bufb' of
                            Inl e \<Rightarrow> Inl e
                          | Inr descs_b \<Rightarrow>
                              Inr (st(i2snum dev \<mapsto>
                                \<lparr>dmadesc_a = descs_a, dmadesc_b = descs_b,
                                 desccount_a = count_a, desccount_b = count_b\<rparr>)))))))"

text \<open>
  \<open>i2s_parallel_flip_to_buffer\<close>: returns at once when the state pointer is
  \<open>NULL\<close> or \<open>desccount_b <= 0\<close>; otherwise it stores the address of the chosen
  chain's first descriptor in the last descriptor of both arrays. \<open>regs\<close> is
  the content of the peripheral's register block, which \<open>dev\<close> points to: the
  function uses \<open>dev\<close> for \<open>i2snum\<close> only and accesses no register. It returns
  \<open>void\<close> and has no failure exit of its own: \<open>Inl\<close> only stands for an access
  outside an array.
\<close>

definition i2s_parallel_flip_to_buffer ::
  "'r \<Rightarrow> i2s_state \<Rightarrow> i2s_dev_t \<Rightarrow> c_int \<Rightarrow> fault + ('r \<times> i2s_state)" where
  "i2s_parallel_flip_to_buffer regs st dev bufid =
     (let no = i2snum dev
      in case st no of
           None \<Rightarrow> Inr (regs, st)
         | Some s \<Rightarrow>
             if sint (desccount_b s) \<le> 0 then Inr (regs, st)
             else
               (let active_dma_chain =
                      (if bufid = 0 then DescPtr RingA 0 else DescPtr RingB 0);
                    ia = sint (desccount_a s - 1);
                    ib = sint (desccount_b s - 1)
                in if \<not> (0 \<le> ia \<and> ia < int (length (dmadesc_a s))) then Inl OutOfBounds
                   else if \<not> (0 \<le> ib \<and> ib < int (length (dmadesc_b s))) then Inl OutOfBounds
                   else Inr (regs, st(no \<mapsto>
                     s\<lparr>dmadesc_a := (dmadesc_a s)[nat ia :=
                          (dmadesc_a s ! nat ia)\<lparr>stqe_next := active_dma_chain\<rparr>],
                       dmadesc_b := (dmadesc_b s)[nat ib :=
                          (dmadesc_b s ! nat ib)\<lparr>stqe_next := active_dma_chain\<rparr>]\<rparr>))))"



section \<open>Auxiliary definitions for the proofs\<close>

text \<open>
  The value \<open>getPixel\<close> returns for in-range coordinates, and the word
  \<open>update_frame\<close> stores there, as total functions of the coordinates.
\<close>

definition pack :: "uint8_t \<Rightarrow> uint8_t \<Rightarrow> uint8_t \<Rightarrow> c_int" where
  "pack r g b = push_bit 16 (ucast r) OR push_bit 8 (ucast g) OR ucast b"

definition pixel_of :: "uint8_t list \<Rightarrow> nat \<Rightarrow> nat \<Rightarrow> c_int" where
  "pixel_of fb x y = pack (fb ! ((x + y * 128) * 3)) (fb ! ((x + y * 128) * 3 + 1))
           (fb ! ((x + y * 128) * 3 + 2))"

definition word_of :: "nat \<Rightarrow> c_int \<Rightarrow> uint8_t list \<Rightarrow> nat \<Rightarrow> nat \<Rightarrow> nat \<Rightarrow> uint16_t" where
  "word_of cnt brightness framebuf pl y x =
     (case update_frame_word cnt brightness framebuf pl (of_nat y) (of_nat x) of
        Inr w \<Rightarrow> w | Inl e \<Rightarrow> 0)"

text \<open>A descriptor for the examples.\<close>

definition d0 :: lldesc_t where
  "d0 = \<lparr>size_desc = 4, length_desc = 4, buf = 0x3FFB0000, eof = 0, sosf = 0, owner = 1,
         stqe_next = DescPtr RingA 0, offset = 0\<rparr>"

text \<open>
  The chunk lengths of one segment of \<open>len\<close> bytes, the descriptors the
  \<open>while\<close> loop writes for it from index \<open>k\<close>, and the descriptors of a whole
  segment list, as functions of natural numbers.
\<close>

function chunk_lens :: "nat \<Rightarrow> nat list" where
  "chunk_lens len =
     (if len = 0 then [] else min len 4092 # chunk_lens (len - min len 4092))"
  by pat_completeness auto
termination
  by (relation "measure id") auto

declare chunk_lens.simps [simp del]

function seg_descs :: "ring \<Rightarrow> nat \<Rightarrow> nat \<Rightarrow> c_ptr \<Rightarrow> lldesc_t list" where
  "seg_descs base k len data =
     (if len = 0 then []
      else \<lparr>size_desc = of_nat (min len 4092), length_desc = of_nat (min len 4092),
            buf = data, eof = 0, sosf = 0, owner = 1,
            stqe_next = DescPtr base (int k + 1), offset = 0\<rparr>
           # seg_descs base (Suc k) (len - min len 4092) (data + of_nat (min len 4092)))"
  by pat_completeness auto
termination
  by (relation "measure (\<lambda>(base, k, len, data). len)") auto

declare seg_descs.simps [simp del]

fun all_descs :: "ring \<Rightarrow> nat \<Rightarrow> i2s_parallel_buffer_desc_t list \<Rightarrow> lldesc_t list" where
  "all_descs base k [] = []"
| "all_descs base k (s # ss) =
     seg_descs base k (unat (size_buf s)) (memory s)
     @ all_descs base (k + length (chunk_lens (unat (size_buf s)))) ss"

text \<open>The ring after the last descriptor has been linked back to the first.\<close>

definition ring_of :: "ring \<Rightarrow> i2s_parallel_buffer_desc_t list \<Rightarrow> lldesc_t list" where
  "ring_of base segs =
     (let ds = all_descs base 0 segs
      in ds[length ds - 1 := (ds ! (length ds - 1))\<lparr>stqe_next := DescPtr base 0\<rparr>])"

text \<open>A buffer list entry, for the examples.\<close>

definition seg :: "c_ptr \<Rightarrow> c_uint \<Rightarrow> i2s_parallel_buffer_desc_t" where
  "seg m sz = \<lparr>memory = m, size_buf = sz\<rparr>"

text \<open>
  The number of descriptors in the words of the specification: the sum over
  the segments of \<open>size / DMA_MAX\<close>, rounded up.
\<close>

definition needed :: "i2s_parallel_buffer_desc_t list \<Rightarrow> nat" where
  "needed segs = (\<Sum>s\<leftarrow>segs. (unat (size_buf s) + 4091) div 4092)"

section \<open>Properties of the bitplane encoder\<close>

lemmas BIT_defs = BIT_R1_def BIT_G1_def BIT_B1_def BIT_R2_def BIT_G2_def BIT_B2_def
  BIT_A_def BIT_B_def BIT_C_def BIT_D_def BIT_LAT_def BIT_OE_def

lemma and_pow_neq0: "(w AND push_bit k 1 \<noteq> 0) = bit w k" for w :: "'a::len word"
  by (simp add: bit_iff_and_push_bit_not_eq_0)

lemma and_num_neq0:
  "((w::c_int) AND 1 \<noteq> 0) = bit w 0"
  "(w AND 2 \<noteq> 0) = bit w 1"
  "(w AND 4 \<noteq> 0) = bit w 2"
  "(w AND 8 \<noteq> 0) = bit w 3"
  using and_pow_neq0[of w 0] and_pow_neq0[of w 1] and_pow_neq0[of w 2] and_pow_neq0[of w 3]
  by simp_all

lemma bit_cond_or:
  "bit (if c then v OR push_bit k 1 else v) n = (bit v n \<or> (c \<and> n = k \<and> k < LENGTH('a)))"
  for v :: "'a::len word"
  by (auto simp: bit_simps)

lemma line_bits_bit:
  "bit (line_bits y) n = (8 \<le> n \<and> n < 12 \<and> bit (y - 1) (n - 8))"
proof -
  have "bit (line_bits y) n =
      ((bit (y - 1) 0 \<and> n = 8) \<or> (bit (y - 1) 1 \<and> n = 9)
       \<or> (bit (y - 1) 2 \<and> n = 10) \<or> (bit (y - 1) 3 \<and> n = 11))"
    unfolding line_bits_def Let_def and_num_neq0 BIT_defs bit_cond_or
    by simp
  also have "\<dots> = (8 \<le> n \<and> n < 12 \<and> bit (y - 1) (n - 8))"
  proof -
    have "8 \<le> n \<and> n < 12 \<longleftrightarrow> n = 8 \<or> n = 9 \<or> n = 10 \<or> n = 11" by arith
    then show ?thesis by auto
  qed
  finally show ?thesis .
qed


lemma and_shifted_mask:
  "(c AND push_bit j (push_bit k 1) \<noteq> 0) = bit c (j + k)" for c :: c_int
  unfolding push_bit_push_bit and_pow_neq0 by (simp add: add.commute)

lemma cond_or: "(if c then v OR b else v) = v OR (if c then b else 0)" for v :: "'a::len word"
  by simp

lemma bit_cond_pb:
  "bit (if c then push_bit k 1 else (0 :: 'a::len word)) n = (c \<and> n = k \<and> k < LENGTH('a))"
  by (auto simp: bit_simps)

lemma update_frame_word_bit:
  assumes c1: "getPixel framebuf x y = Inr c1"
    and c2: "getPixel framebuf x (y + 16) = Inr c2"
  shows "\<exists>w. update_frame_word cnt brightness framebuf pl y x = Inr w \<and>
    (\<forall>n. bit w n =
      (n < 16 \<and>
       (bit (line_bits y) n
        \<or> (sint brightness \<le> sint x \<and> n = 13)
        \<or> (x = DISPLAY_WIDTH - 1 \<and> n = 12)
        \<or> (bit c1 (16 + (8 + pl - cnt)) \<and> n = 0)
        \<or> (bit c1 (8 + (8 + pl - cnt)) \<and> n = 1)
        \<or> (bit c1 (0 + (8 + pl - cnt)) \<and> n = 2)
        \<or> (bit c2 (16 + (8 + pl - cnt)) \<and> n = 3)
        \<or> (bit c2 (8 + (8 + pl - cnt)) \<and> n = 4)
        \<or> (bit c2 (0 + (8 + pl - cnt)) \<and> n = 5))))"
  apply (simp only: update_frame_word_def c1 c2 sum.case Let_def cond_or and_shifted_mask BIT_defs)
  apply (simp only: bit_ucast_iff bit_or_iff bit_cond_pb sum.inject simp_thms ex_simps)
  apply auto
  done


lemma pack_bit:
  assumes "k < 8"
  shows "bit (pack r g b) (16 + k) = bit r k"
    and "bit (pack r g b) (8 + k) = bit g k"
    and "bit (pack r g b) (0 + k) = bit b k"
  using assms by (auto simp: pack_def bit_simps dest: bit_imp_le_length)

lemma getPixel_in_range:
  assumes len: "length fb = 12288" and x: "x < 128" and y: "y < 32"
  shows "getPixel fb (of_nat x) (of_nat y) =
    Inr (pack (fb ! ((x + y * 128) * 3)) (fb ! ((x + y * 128) * 3 + 1))
           (fb ! ((x + y * 128) * 3 + 2)))"
proof -
  define i where "i = (x + y * 128) * 3"
  have w: "(of_nat x + of_nat y * DISPLAY_WIDTH) * 3 = (of_nat i :: c_int)"
    by (simp add: DISPLAY_WIDTH_def i_def)
  have b: "i + 2 < 12288" using x y by (simp add: i_def)
  have s: "sint (of_nat i :: c_int) = int i"
    using b by (intro sint_of_nat_32) simp
  have n: "nat (int i) = i" "nat (int i + 1) = i + 1" "nat (int i + 2) = i + 2"
    by simp_all
  have r: "0 \<le> int i \<and> int i + 2 < int (length fb)"
    using b len by simp
  show ?thesis
    unfolding getPixel_def w s Let_def pack_def n i_def [symmetric]
    using r by simp
qed


lemma collect_all_Inr:
  assumes "\<forall>a \<in> set as. f a = Inr (g a)"
  shows "collect f as = Inr (map g as)"
  using assms by (induction as) simp_all

lemma product_upt_nth:
  assumes "y < m" "x < n"
  shows "List.product [0..<m] [0..<n] ! (y * n + x) = (y, x)"
proof -
  have "y * n + x < m * n"
  proof -
    have "y * n + x < y * n + n" using assms by simp
    also have "\<dots> = Suc y * n" by simp
    also have "\<dots> \<le> m * n" using assms by (intro mult_le_mono1) simp
    finally show ?thesis .
  qed
  then show ?thesis
    using assms by (simp add: product_nth)
qed

lemma update_frame_word_in_range:
  assumes len: "length framebuf = 12288" and y: "y < 16" and x: "x < 128"
  shows "update_frame_word cnt brightness framebuf pl (of_nat y) (of_nat x)
           = Inr (word_of cnt brightness framebuf pl y x)"
    and "bit (word_of cnt brightness framebuf pl y x) n =
      (n < 16 \<and>
       (bit (line_bits (of_nat y)) n
        \<or> (sint brightness \<le> int x \<and> n = 13)
        \<or> (x = 127 \<and> n = 12)
        \<or> (bit (pixel_of framebuf x y) (16 + (8 + pl - cnt)) \<and> n = 0)
        \<or> (bit (pixel_of framebuf x y) (8 + (8 + pl - cnt)) \<and> n = 1)
        \<or> (bit (pixel_of framebuf x y) (0 + (8 + pl - cnt)) \<and> n = 2)
        \<or> (bit (pixel_of framebuf x (y + 16)) (16 + (8 + pl - cnt)) \<and> n = 3)
        \<or> (bit (pixel_of framebuf x (y + 16)) (8 + (8 + pl - cnt)) \<and> n = 4)
        \<or> (bit (pixel_of framebuf x (y + 16)) (0 + (8 + pl - cnt)) \<and> n = 5)))"
proof -
  have c1: "getPixel framebuf (of_nat x) (of_nat y) = Inr (pixel_of framebuf x y)"
    unfolding pixel_of_def using len x y by (intro getPixel_in_range) simp_all
  have "getPixel framebuf (of_nat x) (of_nat (y + 16)) = Inr (pixel_of framebuf x (y + 16))"
    unfolding pixel_of_def using len x y by (intro getPixel_in_range) simp_all
  then have c2: "getPixel framebuf (of_nat x) (of_nat y + 16) = Inr (pixel_of framebuf x (y + 16))"
    by simp
  have sx: "sint (of_nat x :: c_int) = int x"
    using x by (intro sint_of_nat_32) simp
  have lx: "((of_nat x :: c_int) = DISPLAY_WIDTH - 1) = (x = 127)"
  proof
    assume "(of_nat x :: c_int) = DISPLAY_WIDTH - 1"
    then have "sint (of_nat x :: c_int) = sint (127 :: c_int)" by (simp add: DISPLAY_WIDTH_def)
    then show "x = 127" unfolding sx by simp
  next
    assume "x = 127" then show "(of_nat x :: c_int) = DISPLAY_WIDTH - 1"
      by (simp add: DISPLAY_WIDTH_def)
  qed
  from update_frame_word_bit [OF c1 c2, of cnt brightness pl]
  obtain w where w: "update_frame_word cnt brightness framebuf pl (of_nat y) (of_nat x) = Inr w"
    and b: "\<And>n. bit w n =
      (n < 16 \<and>
       (bit (line_bits (of_nat y)) n
        \<or> (sint brightness \<le> sint (of_nat x :: c_int) \<and> n = 13)
        \<or> ((of_nat x :: c_int) = DISPLAY_WIDTH - 1 \<and> n = 12)
        \<or> (bit (pixel_of framebuf x y) (16 + (8 + pl - cnt)) \<and> n = 0)
        \<or> (bit (pixel_of framebuf x y) (8 + (8 + pl - cnt)) \<and> n = 1)
        \<or> (bit (pixel_of framebuf x y) (0 + (8 + pl - cnt)) \<and> n = 2)
        \<or> (bit (pixel_of framebuf x (y + 16)) (16 + (8 + pl - cnt)) \<and> n = 3)
        \<or> (bit (pixel_of framebuf x (y + 16)) (8 + (8 + pl - cnt)) \<and> n = 4)
        \<or> (bit (pixel_of framebuf x (y + 16)) (0 + (8 + pl - cnt)) \<and> n = 5)))"
    by blast
  have eq: "word_of cnt brightness framebuf pl y x = w"
    by (simp add: word_of_def w)
  show "update_frame_word cnt brightness framebuf pl (of_nat y) (of_nat x)
           = Inr (word_of cnt brightness framebuf pl y x)"
    unfolding eq by (rule w)
  show "bit (word_of cnt brightness framebuf pl y x) n =
      (n < 16 \<and>
       (bit (line_bits (of_nat y)) n
        \<or> (sint brightness \<le> int x \<and> n = 13)
        \<or> (x = 127 \<and> n = 12)
        \<or> (bit (pixel_of framebuf x y) (16 + (8 + pl - cnt)) \<and> n = 0)
        \<or> (bit (pixel_of framebuf x y) (8 + (8 + pl - cnt)) \<and> n = 1)
        \<or> (bit (pixel_of framebuf x y) (0 + (8 + pl - cnt)) \<and> n = 2)
        \<or> (bit (pixel_of framebuf x (y + 16)) (16 + (8 + pl - cnt)) \<and> n = 3)
        \<or> (bit (pixel_of framebuf x (y + 16)) (8 + (8 + pl - cnt)) \<and> n = 4)
        \<or> (bit (pixel_of framebuf x (y + 16)) (0 + (8 + pl - cnt)) \<and> n = 5)))"
    unfolding eq b sx lx ..
qed

lemma update_frame_plane_in_range:
  assumes len: "length framebuf = 12288"
  shows "update_frame_plane cnt brightness framebuf pl =
    Inr (map (\<lambda>(y, x). word_of cnt brightness framebuf pl y x)
          (List.product [0..<16] [0..<128]))"
proof -
  have u: "unat DISPLAY_WIDTH = 128" by (simp add: DISPLAY_WIDTH_def)
  show ?thesis
    unfolding update_frame_plane_def u
    by (rule collect_all_Inr) (auto simp: update_frame_word_in_range(1) [OF len])
qed

lemma update_frame_plane_nth:
  assumes len: "length framebuf = 12288" and y: "y < 16" and x: "x < 128"
  shows "\<exists>plane. update_frame_plane cnt brightness framebuf pl = Inr plane \<and>
     length plane = 2048 \<and> plane ! (y * 128 + x) = word_of cnt brightness framebuf pl y x"
proof -
  have lt: "y * 128 + x < 2048" using x y by simp
  have "map (\<lambda>(y, x). word_of cnt brightness framebuf pl y x)
          (List.product [0..<16] [0..<128]) ! (y * 128 + x)
        = word_of cnt brightness framebuf pl y x"
    using lt product_upt_nth [OF y x] by (simp add: length_product)
  then show ?thesis
    unfolding update_frame_plane_in_range [OF len] by (simp add: length_product)
qed


lemma bit_pred_of_nat:
  "bit (of_nat y - 1 :: c_int) n = (n < 32 \<and> bit (int y - 1) n)"
proof -
  have "(of_nat y - 1 :: c_int) = word_of_int (int y - 1)" by simp
  then show ?thesis by (simp only: bit_word_of_int_iff) simp
qed

lemma row_address_bits:
  assumes b: "\<And>n. n < 4 \<Longrightarrow> bit w (8 + n) = bit (of_nat y - 1 :: c_int) n"
  shows "uint (drop_bit 8 (w :: uint16_t) AND 15) = (int y - 1) mod 16"
proof -
  have m: "(15 :: uint16_t) = mask 4" by (simp add: mask_eq_exp_minus_1)
  have "uint (drop_bit 8 w AND mask 4) = take_bit 4 (int y - 1)"
  proof (rule bit_eqI)
    fix n
    show "bit (uint (drop_bit 8 w AND mask 4)) n = bit (take_bit 4 (int y - 1)) n"
      using b [of n] by (auto simp: bit_simps bit_pred_of_nat)
  qed
  then show ?thesis unfolding m by (simp add: take_bit_eq_mod)
qed

text \<open>
  Claim C6. For every plane and every output row \<open>y\<close> of the half panel
  (\<open>y < 16\<close>), the four row-address bits (bits 8..11) of every word of that row
  in the plane's buffer encode \<open>(y - 1) mod 16\<close>, the previously addressed row;
  for row 0 that is 15, the topmost address, as the witness shows.
\<close>

theorem row_address_is_previous_row:
  assumes len: "length framebuf = 128 * 32 * 3"
    and pl: "pl < cnt" and cnt: "cnt \<le> 8" and y: "y < 16" and x: "x < 128"
  shows "\<exists>plane. update_frame_plane cnt brightness framebuf pl = Inr plane \<and>
           length plane = 16 * 128 \<and>
           uint (drop_bit 8 (plane ! (y * 128 + x)) AND 15) = (int y - 1) mod 16"
proof -
  have len': "length framebuf = 12288" using len by simp
  obtain plane where r: "update_frame_plane cnt brightness framebuf pl = Inr plane"
    and l: "length plane = 2048"
    and w: "plane ! (y * 128 + x) = word_of cnt brightness framebuf pl y x"
    using update_frame_plane_nth [OF len' y x] by blast
  have "uint (drop_bit 8 (plane ! (y * 128 + x)) AND 15) = (int y - 1) mod 16"
  proof (rule row_address_bits)
    fix n :: nat
    assume "n < 4"
    then show "bit (plane ! (y * 128 + x)) (8 + n) = bit (of_nat y - 1 :: c_int) n"
      unfolding w update_frame_word_in_range(2) [OF len' y x] line_bits_bit
      by auto
  qed
  with r l show ?thesis by simp
qed


theorem row_address_is_previous_row_witness:
  "\<exists>plane. update_frame_plane 7 16 (replicate 12288 255) 0 = Inr plane \<and>
         length plane = 2048 \<and> uint (drop_bit 8 (plane ! 5) AND 15) = 15"
  using row_address_is_previous_row [of "replicate 12288 255" 0 7 0 5 16]
  by simp

text \<open>
  Claim C7. For every plane \<open>pl < BITPLANE_CNT\<close>, row and column, the six RGB
  bits of the stored word (bits 0..2 for the pixel of the current scan half, bits
  3..5 for the pixel 16 rows below, half the panel height) are set exactly when
  bit \<open>8 - BITPLANE_CNT + pl\<close> of the red, green and blue byte of that pixel is
  set.
\<close>

theorem rgb_bits_are_plane_bits:
  assumes len: "length framebuf = 128 * 32 * 3"
    and pl: "pl < cnt" and cnt: "cnt \<le> 8" and y: "y < 16" and x: "x < 128"
  shows "\<exists>plane. update_frame_plane cnt brightness framebuf pl = Inr plane \<and>
           length plane = 16 * 128 \<and>
           (bit (plane ! (y * 128 + x)) 0 = bit (framebuf ! ((x + y * 128) * 3)) (8 - cnt + pl)) \<and>
           (bit (plane ! (y * 128 + x)) 1 = bit (framebuf ! ((x + y * 128) * 3 + 1)) (8 - cnt + pl)) \<and>
           (bit (plane ! (y * 128 + x)) 2 = bit (framebuf ! ((x + y * 128) * 3 + 2)) (8 - cnt + pl)) \<and>
           (bit (plane ! (y * 128 + x)) 3 = bit (framebuf ! ((x + (y + 16) * 128) * 3)) (8 - cnt + pl)) \<and>
           (bit (plane ! (y * 128 + x)) 4 = bit (framebuf ! ((x + (y + 16) * 128) * 3 + 1)) (8 - cnt + pl)) \<and>
           (bit (plane ! (y * 128 + x)) 5 = bit (framebuf ! ((x + (y + 16) * 128) * 3 + 2)) (8 - cnt + pl))"
proof -
  have len': "length framebuf = 12288" using len by simp
  have k: "8 + pl - cnt = 8 - cnt + pl" "8 - cnt + pl < 8"
    using pl cnt by simp_all
  obtain plane where r: "update_frame_plane cnt brightness framebuf pl = Inr plane"
    and l: "length plane = 2048"
    and w: "plane ! (y * 128 + x) = word_of cnt brightness framebuf pl y x"
    using update_frame_plane_nth [OF len' y x] by blast
  note b = update_frame_word_in_range(2) [OF len' y x, of cnt brightness pl]
  have "bit (plane ! (y * 128 + x)) 0 = bit (framebuf ! ((x + y * 128) * 3)) (8 - cnt + pl)"
    unfolding w b line_bits_bit k pixel_of_def pack_bit [OF k(2)] by simp
  moreover
  have "bit (plane ! (y * 128 + x)) 1 = bit (framebuf ! ((x + y * 128) * 3 + 1)) (8 - cnt + pl)"
    unfolding w b line_bits_bit k pixel_of_def pack_bit [OF k(2)] by simp
  moreover
  have "bit (plane ! (y * 128 + x)) 2 = bit (framebuf ! ((x + y * 128) * 3 + 2)) (8 - cnt + pl)"
    unfolding w b line_bits_bit k pixel_of_def pack_bit [OF k(2)] by simp
  moreover
  have "bit (plane ! (y * 128 + x)) 3 = bit (framebuf ! ((x + (y + 16) * 128) * 3)) (8 - cnt + pl)"
    unfolding w b line_bits_bit k pixel_of_def pack_bit [OF k(2)] by simp
  moreover
  have "bit (plane ! (y * 128 + x)) 4 = bit (framebuf ! ((x + (y + 16) * 128) * 3 + 1)) (8 - cnt + pl)"
    unfolding w b line_bits_bit k pixel_of_def pack_bit [OF k(2)] by simp
  moreover
  have "bit (plane ! (y * 128 + x)) 5 = bit (framebuf ! ((x + (y + 16) * 128) * 3 + 2)) (8 - cnt + pl)"
    unfolding w b line_bits_bit k pixel_of_def pack_bit [OF k(2)] by simp
  ultimately show ?thesis using r l by simp
qed

theorem rgb_bits_are_plane_bits_witness:
  "\<exists>plane. update_frame_plane 7 16 (replicate 12288 (0x82 :: uint8_t)) 6 = Inr plane \<and>
     length plane = 2048 \<and>
     bit (plane ! 133) 0 \<and> bit (plane ! 133) 1 \<and> bit (plane ! 133) 2 \<and>
     bit (plane ! 133) 3 \<and> bit (plane ! 133) 4 \<and> bit (plane ! 133) 5"
  using rgb_bits_are_plane_bits [of "replicate 12288 (0x82 :: uint8_t)" 6 7 1 5 16]
  by (simp add: bit_numeral_word_iff) 

text \<open>
  Claim C8. For every plane, row and column, the blank bit (\<open>BIT_OE\<close>, bit 13)
  of the stored word is set exactly when the column index is at least
  \<open>brightness\<close>, whatever the plane and the row; with \<open>brightness\<close> equal to the
  panel width no column is blanked, and with \<open>brightness = 0\<close> every column is.
\<close>

theorem blank_bit_iff_column_reaches_brightness:
  assumes len: "length framebuf = 128 * 32 * 3"
    and pl: "pl < cnt" and cnt: "cnt \<le> 8" and y: "y < 16" and x: "x < 128"
  shows "\<exists>plane. update_frame_plane cnt brightness framebuf pl = Inr plane \<and>
           length plane = 16 * 128 \<and>
           (bit (plane ! (y * 128 + x)) 13 \<longleftrightarrow> sint brightness \<le> int x) \<and>
           (brightness = DISPLAY_WIDTH \<longrightarrow> \<not> bit (plane ! (y * 128 + x)) 13) \<and>
           (brightness = 0 \<longrightarrow> bit (plane ! (y * 128 + x)) 13)"
proof -
  have len': "length framebuf = 12288" using len by simp
  obtain plane where r: "update_frame_plane cnt brightness framebuf pl = Inr plane"
    and l: "length plane = 2048"
    and w: "plane ! (y * 128 + x) = word_of cnt brightness framebuf pl y x"
    using update_frame_plane_nth [OF len' y x] by blast
  have b: "bit (plane ! (y * 128 + x)) 13 \<longleftrightarrow> sint brightness \<le> int x"
    unfolding w update_frame_word_in_range(2) [OF len' y x] line_bits_bit by simp
  have "brightness = DISPLAY_WIDTH \<longrightarrow> \<not> bit (plane ! (y * 128 + x)) 13"
    unfolding b using x by (simp add: DISPLAY_WIDTH_def)
  moreover have "brightness = 0 \<longrightarrow> bit (plane ! (y * 128 + x)) 13"
    unfolding b by simp
  ultimately show ?thesis using r l b by simp
qed

theorem blank_bit_iff_column_reaches_brightness_witness:
  "(\<exists>plane. update_frame_plane 7 128 (replicate 12288 0) 2 = Inr plane \<and> \<not> bit (plane ! 127) 13) \<and>
   (\<exists>plane. update_frame_plane 7 0 (replicate 12288 0) 2 = Inr plane \<and> bit (plane ! 0) 13) \<and>
   (\<exists>plane. update_frame_plane 7 16 (replicate 12288 0) 2 = Inr plane \<and> \<not> bit (plane ! 15) 13) \<and>
   (\<exists>plane. update_frame_plane 7 16 (replicate 12288 0) 2 = Inr plane \<and> bit (plane ! 16) 13)"
  using blank_bit_iff_column_reaches_brightness [of "replicate 12288 0" 2 7 0 127 128]
    blank_bit_iff_column_reaches_brightness [of "replicate 12288 0" 2 7 0 0 0]
    blank_bit_iff_column_reaches_brightness [of "replicate 12288 0" 2 7 0 15 16]
    blank_bit_iff_column_reaches_brightness [of "replicate 12288 0" 2 7 0 16 16]
  by (simp add: DISPLAY_WIDTH_def) blast

section \<open>Properties of the buffer flip\<close>

lemma sint_word_of_int_32:
  "- (2 ^ 31) \<le> k \<Longrightarrow> k < 2 ^ 31 \<Longrightarrow> sint (word_of_int k :: c_int) = k"
  by (simp add: sint_sbintrunc' signed_take_bit_int_eq_self)

lemma sint_minus_one:
  assumes "0 < sint (w :: c_int)"
  shows "sint (w - 1) = sint w - 1"
proof -
  have "w - 1 = word_of_int (sint w - 1)" by simp
  moreover have "sint w < 2 ^ 31" using sint_lt [of w] by simp
  ultimately show ?thesis
    using assms by (simp only: sint_word_of_int_32)
qed

text \<open>
  Claim C1. In a configured double-buffered state (both descriptor arrays
  allocated with \<open>desccount_a\<close> and \<open>desccount_b\<close> entries, both counts
  positive), \<open>i2s_parallel_flip_to_buffer\<close> with buffer id \<open>bufid\<close> returns, and
  afterwards the last descriptor of ring A and the last descriptor of ring B both
  point to descriptor 0 of the selected ring: ring A for \<open>bufid = 0\<close>, ring B
  otherwise.
\<close>

theorem flip_retargets_both_tails:
  assumes st: "st (i2snum dev) = Some s"
    and ca: "0 < sint (desccount_a s)" and cb: "0 < sint (desccount_b s)"
    and la: "int (length (dmadesc_a s)) = sint (desccount_a s)"
    and lb: "int (length (dmadesc_b s)) = sint (desccount_b s)"
  shows "\<exists>st' s'. i2s_parallel_flip_to_buffer regs st dev bufid = Inr (regs, st') \<and>
           st' (i2snum dev) = Some s' \<and>
           length (dmadesc_a s') = length (dmadesc_a s) \<and>
           length (dmadesc_b s') = length (dmadesc_b s) \<and>
           stqe_next (dmadesc_a s' ! (length (dmadesc_a s') - 1))
             = DescPtr (if bufid = 0 then RingA else RingB) 0 \<and>
           stqe_next (dmadesc_b s' ! (length (dmadesc_b s') - 1))
             = DescPtr (if bufid = 0 then RingA else RingB) 0"
proof -
  have ia: "sint (desccount_a s - 1) = int (length (dmadesc_a s)) - 1"
    using sint_minus_one [OF ca] la by simp
  have ib: "sint (desccount_b s - 1) = int (length (dmadesc_b s)) - 1"
    using sint_minus_one [OF cb] lb by simp
  have na: "nat (int (length (dmadesc_a s)) - 1) = length (dmadesc_a s) - 1"
    by simp
  have nb: "nat (int (length (dmadesc_b s)) - 1) = length (dmadesc_b s) - 1"
    by simp
  have "0 < int (length (dmadesc_a s))" unfolding la by (rule ca)
  then have pa: "0 < length (dmadesc_a s)" by simp
  have "0 < int (length (dmadesc_b s))" unfolding lb by (rule cb)
  then have pb: "0 < length (dmadesc_b s)" by simp
  show ?thesis
    using pa pb cb
    by (simp add: i2s_parallel_flip_to_buffer_def Let_def st ia ib na nb)
qed


text \<open>
  Claim C9, as stated, asks for a fast failure when the flip is called before
  setup. The function returns normally there, with the registers and the state
  as they were.
\<close>

theorem flip_before_setup_counterexample:
  "i2s_parallel_flip_to_buffer () i2s_state_init I2S1 0 = Inr ((), i2s_state_init)"
  by (simp add: i2s_parallel_flip_to_buffer_def i2s_state_init_def)

text \<open>
  Claim C9, amended. Called before setup (the state pointer is \<open>NULL\<close>), or in
  single-ring mode (\<open>desccount_b <= 0\<close>), \<open>i2s_parallel_flip_to_buffer\<close> returns
  without a failure and leaves the peripheral registers and the whole driver
  state, every descriptor included, unchanged.
\<close>

theorem flip_without_rings_is_silent:
  assumes "st (i2snum dev) = None
           \<or> (\<exists>s. st (i2snum dev) = Some s \<and> sint (desccount_b s) \<le> 0)"
  shows "i2s_parallel_flip_to_buffer regs st dev bufid = Inr (regs, st)"
  using assms by (auto simp: i2s_parallel_flip_to_buffer_def)

theorem flip_without_rings_is_silent_witness:
  "i2s_parallel_flip_to_buffer () i2s_state_init I2S0 1 = Inr ((), i2s_state_init) \<and>
   i2s_parallel_flip_to_buffer ()
     (i2s_state_init(1 \<mapsto> \<lparr>dmadesc_a = [d0], dmadesc_b = [], desccount_a = 1, desccount_b = 0\<rparr>))
     I2S1 1
   = Inr ((), i2s_state_init(1 \<mapsto>
       \<lparr>dmadesc_a = [d0], dmadesc_b = [], desccount_a = 1, desccount_b = 0\<rparr>))"
  using flip_without_rings_is_silent [of i2s_state_init I2S0 "()" 1]
    flip_without_rings_is_silent [of
      "i2s_state_init(1 \<mapsto> \<lparr>dmadesc_a = [d0], dmadesc_b = [], desccount_a = 1, desccount_b = 0\<rparr>)"
      I2S1 "()" 1]
  by (simp add: i2s_state_init_def)

section \<open>Properties of the bitplane interleave schedule\<close>

lemma bitplane_order_3: "bitplane_order 3 = [2, 1, 0, 2, 2, 1, 2]"
  by code_simp

lemma find_plane_Suc:
  "find_plane (Suc n) t =
     (if t ! n \<le> t ! find_plane n t then n else find_plane n t)"
  by (simp add: find_plane_def)

lemma find_plane_props:
  "(0 < n \<longrightarrow> find_plane n t < n) \<and>
   (\<forall>j<n. t ! find_plane n t \<le> t ! j) \<and>
   (\<forall>j<n. t ! j = t ! find_plane n t \<longrightarrow> j \<le> find_plane n t)"
proof (induction n)
  case 0
  show ?case by simp
next
  case (Suc n)
  show ?case
  proof (cases "t ! n \<le> t ! find_plane n t")
    case True
    then have e: "find_plane (Suc n) t = n" by (simp add: find_plane_Suc)
    show ?thesis unfolding e using Suc True by (auto simp: less_Suc_eq)
  next
    case False
    then have e: "find_plane (Suc n) t = find_plane n t" by (simp add: find_plane_Suc)
    have "0 < n"
    proof (rule ccontr)
      assume "\<not> 0 < n"
      then have "n = 0" by simp
      with False show False by (simp add: find_plane_def)
    qed
    then show ?thesis unfolding e using Suc False by (auto simp: less_Suc_eq)
  qed
qed


lemma length_times_after: "length (times_after cnt k t) = length t"
  by (induction k arbitrary: t) (simp_all add: Let_def)

lemma length_insert_planes: "length (insert_planes cnt k t) = k"
  by (induction k arbitrary: t) (simp_all add: Let_def)

lemma set_insert_planes: "0 < cnt \<Longrightarrow> set (insert_planes cnt k t) \<subseteq> {..<cnt}"
  using find_plane_props [of cnt]
  by (induction k arbitrary: t) (auto simp: Let_def)

lemma sum_pow2: "(\<Sum>p<cnt. (2::nat) ^ p) = 2 ^ cnt - 1"
  by (induction cnt) simp_all

text \<open>The plane that is chosen has not used up its share.\<close>

lemma chosen_plane_not_full:
  assumes t: "\<forall>p<cnt. t ! p = int (c p) * 2 ^ (cnt - p)"
    and le: "\<forall>p<cnt. c p \<le> 2 ^ p"
    and room: "(\<Sum>p<cnt. c p) < 2 ^ cnt - 1"
    and ch: "ch < cnt" and least: "\<forall>j<cnt. t ! ch \<le> t ! j"
  shows "c ch < 2 ^ ch"
proof (rule ccontr)
  assume "\<not> c ch < 2 ^ ch"
  then have full: "2 ^ ch \<le> c ch" by simp
  have all: "2 ^ p \<le> c p" if p: "p < cnt" for p
  proof -
    have "int (c ch) * 2 ^ (cnt - ch) \<le> int (c p) * 2 ^ (cnt - p)"
      using least t ch p by (metis)
    then have "int (c ch * 2 ^ (cnt - ch)) \<le> int (c p * 2 ^ (cnt - p))"
      by simp
    then have a: "c ch * 2 ^ (cnt - ch) \<le> c p * 2 ^ (cnt - p)"
      by (simp only: of_nat_le_iff)
    have "(2::nat) ^ cnt = 2 ^ ch * 2 ^ (cnt - ch)"
      using ch by (simp add: power_add [symmetric])
    also have "\<dots> \<le> c ch * 2 ^ (cnt - ch)"
      using full by (rule mult_le_mono1)
    finally have b: "(2::nat) ^ cnt \<le> c p * 2 ^ (cnt - p)"
      using a by simp
    have "(2::nat) ^ cnt = 2 ^ p * 2 ^ (cnt - p)"
      using p by (simp add: power_add [symmetric])
    with b have "(2::nat) ^ p * 2 ^ (cnt - p) \<le> c p * 2 ^ (cnt - p)" by simp
    then show ?thesis by simp
  qed
  have "(\<Sum>p<cnt. (2::nat) ^ p) \<le> (\<Sum>p<cnt. c p)"
    by (rule sum_mono) (simp add: all)
  with room show False by (simp add: sum_pow2)
qed

lemma sum_fun_upd:
  assumes "ch < (cnt :: nat)"
  shows "(\<Sum>p<cnt. (c(ch := Suc (c ch))) p) = Suc (\<Sum>p<cnt. (c p :: nat))"
proof -
  have "(\<Sum>p<cnt. (c(ch := Suc (c ch))) p) = (\<Sum>p<cnt. c p + (if p = ch then 1 else 0))"
    by (rule sum.cong) simp_all
  also have "\<dots> = (\<Sum>p<cnt. c p) + (\<Sum>p<cnt. if p = ch then 1 else 0)"
    by (simp add: sum.distrib)
  also have "(\<Sum>p<cnt. if p = ch then 1 else 0) = (if ch \<in> {..<cnt} then 1 else (0::nat))"
    by (rule sum.delta) simp
  also have "\<dots> = 1"
    using assms by simp
  finally show ?thesis by simp
qed

lemma loop_invariant:
  assumes "length t = cnt"
    and "\<forall>p<cnt. t ! p = int (c p) * 2 ^ (cnt - p)"
    and "\<forall>p<cnt. c p \<le> 2 ^ p"
    and "(\<Sum>p<cnt. c p) + k \<le> 2 ^ cnt - 1"
  shows "\<forall>p<cnt.
           times_after cnt k t ! p
             = int (c p + count_list (insert_planes cnt k t) p) * 2 ^ (cnt - p) \<and>
           c p + count_list (insert_planes cnt k t) p \<le> 2 ^ p"
  using assms
proof (induction k arbitrary: t c)
  case 0
  then show ?case by simp
next
  case (Suc k)
  define ch where "ch = find_plane cnt t"
  define t' where "t' = t[ch := t ! ch + 2 ^ (cnt - ch)]"
  define c' where "c' = c(ch := Suc (c ch))"
  have "(1::nat) < 2 ^ cnt" using Suc.prems(4) by simp
  then have pos: "0 < cnt" by (cases cnt) simp_all
  have ch: "ch < cnt" and least: "\<forall>j<cnt. t ! ch \<le> t ! j"
    using find_plane_props [of cnt t] pos by (simp_all add: ch_def)
  have room: "(\<Sum>p<cnt. c p) < 2 ^ cnt - 1" using Suc.prems(4) by simp
  have notfull: "c ch < 2 ^ ch"
    by (rule chosen_plane_not_full [OF Suc.prems(2) Suc.prems(3) room ch least])
  have l': "length t' = cnt" by (simp add: t'_def Suc.prems(1))
  have i': "\<forall>p<cnt. t' ! p = int (c' p) * 2 ^ (cnt - p)"
    using Suc.prems(1,2) ch by (auto simp: t'_def c'_def nth_list_update algebra_simps)
  have b': "\<forall>p<cnt. c' p \<le> 2 ^ p"
    using Suc.prems(3) notfull by (auto simp: c'_def)
  have s': "(\<Sum>p<cnt. c' p) + k \<le> 2 ^ cnt - 1"
    unfolding c'_def sum_fun_upd [OF ch] using Suc.prems(4) by simp
  have e1: "times_after cnt (Suc k) t = times_after cnt k t'"
    by (simp add: Let_def ch_def t'_def)
  have e2: "insert_planes cnt (Suc k) t = ch # insert_planes cnt k t'"
    by (simp add: Let_def ch_def t'_def)
  have e3: "c' p + count_list (insert_planes cnt k t') p
          = c p + count_list (ch # insert_planes cnt k t') p" for p
    by (simp add: c'_def)
  show ?case
    unfolding e1 e2 e3 [symmetric] by (rule Suc.IH [OF l' i' b' s'])
qed


lemma order_invariant:
  assumes k: "k \<le> 2 ^ cnt - 1" and p: "p < cnt"
  shows "times_after cnt k (replicate cnt 0) ! p
           = int (count_list (insert_planes cnt k (replicate cnt 0)) p) * 2 ^ (cnt - p)"
    and "count_list (insert_planes cnt k (replicate cnt 0)) p \<le> 2 ^ p"
  using loop_invariant [of "replicate cnt 0" cnt "\<lambda>p. 0" k] k p by simp_all

lemma times_bounded:
  assumes k: "k \<le> 2 ^ cnt - 1" and p: "p < cnt"
  shows "0 \<le> times_after cnt k (replicate cnt 0) ! p"
    and "times_after cnt k (replicate cnt 0) ! p \<le> 2 ^ cnt"
proof -
  let ?n = "count_list (insert_planes cnt k (replicate cnt 0)) p"
  have e: "times_after cnt k (replicate cnt 0) ! p = int (?n * 2 ^ (cnt - p))"
    using order_invariant(1) [OF k p] by simp
  show "0 \<le> times_after cnt k (replicate cnt 0) ! p"
    unfolding e by simp
  have "?n * 2 ^ (cnt - p) \<le> 2 ^ p * 2 ^ (cnt - p)"
    using order_invariant(2) [OF k p] by (rule mult_le_mono1)
  also have "\<dots> = 2 ^ cnt"
    using p by (simp add: power_add [symmetric])
  finally have "int (?n * 2 ^ (cnt - p)) \<le> int (2 ^ cnt)"
    by (simp only: of_nat_le_iff)
  then show "times_after cnt k (replicate cnt 0) ! p \<le> 2 ^ cnt"
    unfolding e by simp
qed

text \<open>
  Claim C4, amended. The bitplane order has length \<open>2 ^ BITPLANE_CNT - 1\<close>, its
  entries are plane indices below \<open>BITPLANE_CNT\<close>, and plane \<open>p\<close> appears exactly
  \<open>2 ^ p\<close> times: the most significant plane most often. For
  \<open>BITPLANE_CNT = 3\<close> the length is 7, plane 0 appears once, plane 1 twice and
  plane 2 four times (the witness).
\<close>

theorem bitplane_order_counts:
  "length (bitplane_order cnt) = 2 ^ cnt - 1 \<and>
   set (bitplane_order cnt) \<subseteq> {..<cnt} \<and>
   (\<forall>p<cnt. count_list (bitplane_order cnt) p = 2 ^ p)"
proof -
  let ?o = "bitplane_order cnt"
  have len: "length ?o = 2 ^ cnt - 1"
    by (simp add: bitplane_order_def length_insert_planes)
  have sub: "set ?o \<subseteq> {..<cnt}"
  proof (cases cnt)
    case 0
    then show ?thesis by (simp add: bitplane_order_def)
  next
    case (Suc m)
    then show ?thesis
      unfolding bitplane_order_def by (intro set_insert_planes) simp
  qed
  have le: "count_list ?o p \<le> 2 ^ p" if "p < cnt" for p
    unfolding bitplane_order_def using order_invariant(2) [OF order_refl that] .
  have "(\<Sum>p<cnt. count_list ?o p) = length ?o"
    using sub by (intro sum_count_set) simp_all
  then have tot: "(\<Sum>p<cnt. count_list ?o p) = (\<Sum>p<cnt. 2 ^ p)"
    by (simp add: len sum_pow2)
  have eq: "count_list ?o p = 2 ^ p" if p: "p < cnt" for p
  proof (rule ccontr)
    assume "count_list ?o p \<noteq> 2 ^ p"
    then have lt: "count_list ?o p < 2 ^ p" using le [OF p] by simp
    have "(\<Sum>p<cnt. count_list ?o p) < (\<Sum>p<cnt. 2 ^ p)"
    proof (rule sum_strict_mono_ex1)
      show "finite {..<cnt}" by simp
      show "\<forall>x\<in>{..<cnt}. count_list ?o x \<le> 2 ^ x" using le by simp
      show "\<exists>a\<in>{..<cnt}. count_list ?o a < 2 ^ a" using lt p by auto
    qed
    with tot show False by simp
  qed
  show ?thesis using len sub eq by simp
qed

theorem bitplane_order_counts_witness:
  "length (bitplane_order 3) = 7 \<and>
   count_list (bitplane_order 3) 0 = 1 \<and>
   count_list (bitplane_order 3) 1 = 2 \<and>
   count_list (bitplane_order 3) 2 = 4"
  using bitplane_order_counts [of 3] by simp

text \<open>
  Claim C4, as stated, gives plane \<open>p\<close> the share \<open>2 ^ (BITPLANE_CNT - 1 - p)\<close>:
  for \<open>BITPLANE_CNT = 3\<close>, four times plane 0 and once plane 2. The code does the
  opposite.
\<close>

theorem bitplane_order_counts_counterexample:
  "count_list (bitplane_order 3) 0 = 1 \<and> count_list (bitplane_order 3) 0 \<noteq> 2 ^ (3 - 1 - 0) \<and>
   count_list (bitplane_order 3) 2 = 4 \<and> count_list (bitplane_order 3) 2 \<noteq> 2 ^ (3 - 1 - 2)"
  by (simp add: bitplane_order_3)

lemma insert_planes_nth:
  "i < k \<Longrightarrow> insert_planes cnt k t ! i = find_plane cnt (times_after cnt i t)"
proof (induction k arbitrary: i t)
  case 0
  then show ?case by simp
next
  case (Suc k)
  show ?case
  proof (cases i)
    case 0
    then show ?thesis by (simp add: Let_def)
  next
    case (Suc i')
    then have "i' < k" using Suc.prems by simp
    from Suc.IH [OF this] show ?thesis
      unfolding Suc by (simp add: Let_def)
  qed
qed

lemma times_after_Suc:
  "times_after cnt (Suc i) t =
     (let u = times_after cnt i t; ch = find_plane cnt u
      in u[ch := u ! ch + 2 ^ (cnt - ch)])"
proof (induction i arbitrary: t)
  case 0
  show ?case by (simp add: Let_def)
next
  case (Suc i)
  have "times_after cnt (Suc (Suc i)) t =
      times_after cnt (Suc i) (t[find_plane cnt t := t ! find_plane cnt t + 2 ^ (cnt - find_plane cnt t)])"
    by (simp add: Let_def)
  also note Suc.IH
  finally show ?case by (simp add: Let_def)
qed

text \<open>
  Claim C5, amended. The counters start at zero. At each of the
  \<open>2 ^ BITPLANE_CNT - 1\<close> positions the plane selected has the minimum current
  counter, ties are broken by the highest plane index, and after the placement
  that plane's counter is increased by exactly \<open>2 ^ (BITPLANE_CNT - ch)\<close>, the
  other counters staying as they are.
\<close>

theorem plane_choice_at_each_position:
  assumes i: "i < 2 ^ cnt - 1"
  shows "times_after cnt 0 (replicate cnt 0) = replicate cnt 0 \<and>
    (let t = times_after cnt i (replicate cnt 0); ch = bitplane_order cnt ! i
     in ch < cnt \<and>
        (\<forall>j<cnt. t ! ch \<le> t ! j) \<and>
        (\<forall>j<cnt. t ! j = t ! ch \<longrightarrow> j \<le> ch) \<and>
        times_after cnt (Suc i) (replicate cnt 0) = t[ch := t ! ch + 2 ^ (cnt - ch)])"
proof -
  have "(1::nat) < 2 ^ cnt" using i by simp
  then have pos: "0 < cnt" by (cases cnt) simp_all
  define t where "t = times_after cnt i (replicate cnt 0)"
  have ch: "bitplane_order cnt ! i = find_plane cnt t"
    unfolding bitplane_order_def t_def using i by (rule insert_planes_nth)
  have step: "times_after cnt (Suc i) (replicate cnt 0)
      = t[find_plane cnt t := t ! find_plane cnt t + 2 ^ (cnt - find_plane cnt t)]"
    unfolding times_after_Suc t_def Let_def ..
  show ?thesis
    unfolding Let_def t_def [symmetric] ch
    using find_plane_props [of cnt t] pos step by simp
qed

lemma times_after_3_4: "times_after 3 4 (replicate 3 0) = [8, 4, 4]"
  by code_simp

lemma find_plane_3_0: "find_plane 3 [0, 0, 0] = 2"
  by code_simp

theorem plane_choice_at_each_position_witness:
  "(4 :: nat) < 2 ^ 3 - 1 \<and>
   times_after 3 4 (replicate 3 0) = [8, 4, 4] \<and>
   bitplane_order 3 ! 4 = 2 \<and>
   times_after 3 5 (replicate 3 0) = [8, 4, 6]"
  using plane_choice_at_each_position [of 4 3]
  by (simp add: bitplane_order_3 times_after_3_4 Let_def)

text \<open>
  Claim C5, as stated, breaks ties by the lowest plane index. At position 0 for
  \<open>BITPLANE_CNT = 3\<close> all counters are zero, and the plane selected is 2, not 0.
\<close>

theorem plane_choice_counterexample:
  "times_after 3 0 (replicate 3 0) = [0, 0, 0] \<and>
   find_plane 3 [0, 0, 0] = 2 \<and>
   bitplane_order 3 ! 0 = 2 \<and>
   [0, 0, 0] ! 0 = ([0, 0, 0] ! 2 :: int)"
proof (intro conjI)
  show "times_after 3 0 (replicate 3 0) = [0, 0, 0]" by code_simp
  show "find_plane 3 [0, 0, 0] = 2" by (rule find_plane_3_0)
  show "bitplane_order 3 ! 0 = 2" unfolding bitplane_order_3 by simp
  show "[0, 0, 0] ! 0 = ([0, 0, 0] ! 2 :: int)" by simp
qed

section \<open>Properties of the descriptor chain builder\<close>

lemma chunk_lens_0 [simp]: "chunk_lens 0 = []"
  by (simp add: chunk_lens.simps)

lemma chunk_lens_pos:
  "0 < len \<Longrightarrow> chunk_lens len = min len 4092 # chunk_lens (len - min len 4092)"
  by (subst chunk_lens.simps) simp

lemma seg_descs_0 [simp]: "seg_descs base k 0 data = []"
  by (simp add: seg_descs.simps)

lemma seg_descs_pos:
  "0 < len \<Longrightarrow> seg_descs base k len data =
     \<lparr>size_desc = of_nat (min len 4092), length_desc = of_nat (min len 4092),
      buf = data, eof = 0, sosf = 0, owner = 1,
      stqe_next = DescPtr base (int k + 1), offset = 0\<rparr>
     # seg_descs base (Suc k) (len - min len 4092) (data + of_nat (min len 4092))"
  by (subst seg_descs.simps) simp

lemma chunk_lens_length: "length (chunk_lens len) = (len + 4091) div 4092"
proof (induction len rule: chunk_lens.induct)
  case (1 len)
  show ?case
  proof (cases "len = 0")
    case True
    then show ?thesis by simp
  next
    case False
    show ?thesis
    proof (cases "len \<le> 4092")
      case True
      with False have "(len + 4091) div 4092 = 1" by simp
      with True False show ?thesis
        by (simp add: chunk_lens_pos min_def)
    next
      case g: False
      then have m: "min len 4092 = 4092" by simp
      have "len + 4091 = (len - 4092 + 4091) + 4092" using g by simp
      then have "(len + 4091) div 4092 = Suc ((len - 4092 + 4091) div 4092)"
        by (simp only: div_add_self2)
      with 1 [OF False] False show ?thesis
        by (simp add: chunk_lens_pos m)
    qed
  qed
qed

lemma chunk_lens_sum: "sum_list (chunk_lens len) = len"
proof (induction len rule: chunk_lens.induct)
  case (1 len)
  then show ?case
    by (cases "len = 0") (simp_all add: chunk_lens_pos)
qed

lemma chunk_lens_bound: "c \<in> set (chunk_lens len) \<Longrightarrow> 0 < c \<and> c \<le> 4092"
proof (induction len rule: chunk_lens.induct)
  case (1 len)
  then show ?case
    by (cases "len = 0") (auto simp: chunk_lens_pos)
qed

lemma seg_descs_length: "length (seg_descs base k len data) = length (chunk_lens len)"
proof (induction base k len data rule: seg_descs.induct)
  case (1 base k len data)
  then show ?case
    by (cases "len = 0") (simp_all add: chunk_lens_pos seg_descs_pos)
qed

lemma unat_of_nat_12: "n \<le> 4092 \<Longrightarrow> unat (of_nat n :: 12 word) = n"
  by (simp add: unat_of_nat)

lemma seg_descs_size:
  "map (\<lambda>d. unat (size_desc d)) (seg_descs base k len data) = chunk_lens len"
proof (induction base k len data rule: seg_descs.induct)
  case (1 base k len data)
  then show ?case
    by (cases "len = 0") (simp_all add: chunk_lens_pos seg_descs_pos unat_of_nat_12)
qed

lemma seg_descs_len:
  "map (\<lambda>d. unat (length_desc d)) (seg_descs base k len data) = chunk_lens len"
proof (induction base k len data rule: seg_descs.induct)
  case (1 base k len data)
  then show ?case
    by (cases "len = 0") (simp_all add: chunk_lens_pos seg_descs_pos unat_of_nat_12)
qed



lemma unat_of_nat_32: "k < 2 ^ 32 \<Longrightarrow> unat (of_nat k :: c_int) = k"
  by (simp add: unat_of_nat)

lemma uint_less_of_unat: "unat (w :: c_int) < n \<Longrightarrow> uint w < int n"
  by (metis of_nat_less_iff uint_nat)

lemma sint_unat_32:
  assumes "unat (w :: c_int) < 2 ^ 31"
  shows "sint w = int (unat w)"
proof -
  have "uint w < int (2 ^ 31)" using assms by (rule uint_less_of_unat)
  then have "uint w < 2 ^ 31" by simp
  then have "sint w = uint w" by (simp add: sint_32)
  then show ?thesis by (simp only: uint_nat)
qed

lemma sint_of_nat_Suc: "Suc k < 2 ^ 31 \<Longrightarrow> sint (of_nat k + 1 :: c_int) = int k + 1"
  using sint_of_nat_32 [of "Suc k"] by (simp add: add.commute)

lemma ucast_of_nat_12:
  assumes "d \<le> 4092"
  shows "(ucast (of_nat d :: c_int) :: 12 word) = of_nat d"
proof -
  have "d < 2 ^ 32" using assms by simp
  then have t: "take_bit 32 d = d" by (rule take_bit_nat_eq_self)
  have "(ucast (of_nat d :: c_int) :: 12 word) = of_nat (take_bit LENGTH(32) d)"
    by (rule unsigned_of_nat)
  then show ?thesis using t by simp
qed

lemma fill_while_0: "fill_while base dmadesc n 0 data = Inr (dmadesc, n)"
  by (subst fill_while.simps) simp

lemma take_update_last: "k < length xs \<Longrightarrow> take (Suc k) (xs[k := x]) = take k xs @ [x]"
  by (simp add: take_Suc_conv_app_nth)

lemma fill_while_spec:
  assumes "unat len < 2 ^ 31" and "n = of_nat k"
    and "k + length (chunk_lens (unat len)) \<le> length dmadesc"
    and "length dmadesc < 2 ^ 31"
  shows "fill_while base dmadesc n len data =
           Inr (take k dmadesc @ seg_descs base k (unat len) data
                  @ drop (k + length (chunk_lens (unat len))) dmadesc,
                of_nat (k + length (chunk_lens (unat len))))"
  using assms
proof (induction "unat len" arbitrary: len n k dmadesc data rule: less_induct)
  case less
  show ?case
  proof (cases "len = 0")
    case True
    then show ?thesis
      using less.prems by (simp add: fill_while_0)
  next
    case False
    define L where "L = unat len"
    define d where "d = min L 4092"
    define dmalen where "dmalen = (if sint DMA_MAX < sint len then DMA_MAX else len)"
    define D where "D = \<lparr>size_desc = of_nat d, length_desc = of_nat d,
            buf = data, eof = 0, sosf = 0, owner = 1,
            stqe_next = DescPtr base (int k + 1), offset = 0\<rparr>"
    have Lpos: "0 < L" using False by (simp add: L_def unat_gt_0)
    have Lr: "L < 2 ^ 31" using less.prems(1) by (simp add: L_def)
    have sl: "sint len = int L" unfolding L_def using less.prems(1) by (rule sint_unat_32)
    have sD: "sint DMA_MAX = 4092" by (simp add: DMA_MAX_def)
    have dm: "dmalen = of_nat d"
    proof (cases "4092 < L")
      case True
      then have "sint DMA_MAX < sint len" by (simp add: sD sl)
      then have "dmalen = DMA_MAX" by (simp add: dmalen_def)
      moreover have "d = 4092" using True by (simp add: d_def)
      ultimately show ?thesis by (simp add: DMA_MAX_def)
    next
      case False
      then have "\<not> sint DMA_MAX < sint len" by (simp add: sD sl)
      then have "dmalen = len" by (simp add: dmalen_def)
      moreover have "d = L" using False by (simp add: d_def)
      moreover have "of_nat L = len" by (simp add: L_def)
      ultimately show ?thesis by simp
    qed
    have dle: "d \<le> L" "d \<le> 4092" "0 < d" using Lpos by (simp_all add: d_def)
    have ud: "unat dmalen = d" unfolding dm using dle by (simp add: unat_of_nat_32)
    have "dmalen \<le> len" using dle ud by (simp add: word_le_nat_alt L_def)
    then have ul: "unat (len - dmalen) = L - d" using ud by (simp add: unat_sub L_def)
    have cl: "chunk_lens L = d # chunk_lens (L - d)"
      using Lpos by (simp add: chunk_lens_pos d_def)
    have sd: "seg_descs base k L data = D # seg_descs base (Suc k) (L - d) (data + of_nat d)"
      using Lpos by (simp add: seg_descs_pos d_def D_def)
    have kl: "k < length dmadesc" using less.prems(3) cl by (simp add: L_def)
    have kr: "Suc k < 2 ^ 31" using kl less.prems(4) by simp
    have sn: "sint n = int k" unfolding less.prems(2) using kr by (intro sint_of_nat_32) simp
    have n1: "n + 1 = of_nat (Suc k)" by (simp add: less.prems(2))
    have sn1: "sint (n + 1) = int k + 1" unfolding less.prems(2) using kr by (rule sint_of_nat_Suc)
    have upd: "(dmadesc ! k)\<lparr>size_desc := ucast dmalen, length_desc := ucast dmalen,
                buf := data, eof := 0, sosf := 0, owner := 1,
                stqe_next := DescPtr base (sint (n + 1)), offset := 0\<rparr> = D"
      unfolding D_def dm sn1 ucast_of_nat_12 [OF dle(2)] by simp
    have step: "fill_while base dmadesc n len data =
        fill_while base (dmadesc[k := D]) (n + 1) (len - dmalen) (data + dmalen)"
      using False kl
      by (subst fill_while.simps) (simp add: Let_def dmalen_def [symmetric] sn upd)
    have ih: "fill_while base (dmadesc[k := D]) (n + 1) (len - dmalen) (data + dmalen) =
        Inr (take (Suc k) (dmadesc[k := D]) @ seg_descs base (Suc k) (L - d) (data + dmalen)
               @ drop (Suc k + length (chunk_lens (L - d))) (dmadesc[k := D]),
             of_nat (Suc k + length (chunk_lens (L - d))))"
    proof -
      have a: "unat (len - dmalen) < unat len" using ul dle Lpos by (simp add: L_def)
      have b: "unat (len - dmalen) < 2 ^ 31" using ul Lr by simp
      have c: "Suc k + length (chunk_lens (unat (len - dmalen))) \<le> length (dmadesc[k := D])"
        using less.prems(3) cl ul by (simp add: L_def)
      have e: "length (dmadesc[k := D]) < 2 ^ 31" using less.prems(4) by simp
      from less.hyps [OF a b n1 c e] show ?thesis unfolding ul .
    qed
    have "take (Suc k) (dmadesc[k := D]) = take k dmadesc @ [D]"
      using kl by (rule take_update_last)
    moreover have "drop (Suc k + length (chunk_lens (L - d))) (dmadesc[k := D])
        = drop (Suc k + length (chunk_lens (L - d))) dmadesc"
      by simp
    ultimately show ?thesis
      unfolding step ih unfolding L_def [symmetric] cl sd dm by simp
  qed
qed


lemma needed_Nil [simp]: "needed [] = 0"
  by (simp add: needed_def)

lemma needed_Cons:
  "needed (s # ss) = length (chunk_lens (unat (size_buf s))) + needed ss"
  by (simp add: needed_def chunk_lens_length)

lemma all_descs_length: "length (all_descs base k segs) = needed segs"
  by (induction segs arbitrary: k) (simp_all add: needed_Cons seg_descs_length)

lemma take_splice:
  assumes "k + length xs \<le> length dm"
  shows "take (k + length xs) (take k dm @ xs @ drop (k + length xs) dm) = take k dm @ xs"
proof -
  have "length (take k dm @ xs) = k + length xs" using assms by simp
  then show ?thesis
    by (metis append.assoc append_eq_conv_conj)
qed

lemma drop_splice:
  assumes "k + length xs \<le> length dm"
  shows "drop (k + length xs + m) (take k dm @ xs @ drop (k + length xs) dm)
           = drop (k + length xs + m) dm"
proof -
  have l: "length (take k dm @ xs) = k + length xs" using assms by simp
  have "drop (k + length xs + m) ((take k dm @ xs) @ drop (k + length xs) dm)
      = drop m (drop (k + length xs) dm)"
    unfolding drop_append l by simp
  then show ?thesis by (simp add: add.commute)
qed

lemma length_splice:
  assumes "k + length xs \<le> length dm"
  shows "length (take k dm @ xs @ drop (k + length xs) dm) = length dm"
  using assms by simp

lemma fill_for_spec:
  assumes "\<forall>s\<in>set segs. memory s \<noteq> 0 \<and> unat (size_buf s) < 2 ^ 31"
    and "memory t = 0" and "n = of_nat k"
    and "k + needed segs \<le> length dmadesc" and "length dmadesc < 2 ^ 31"
  shows "fill_for base dmadesc n (segs @ t # rest) =
           Inr (take k dmadesc @ all_descs base k segs @ drop (k + needed segs) dmadesc,
                of_nat (k + needed segs))"
  using assms
proof (induction segs arbitrary: dmadesc n k)
  case Nil
  then show ?case by simp
next
  case (Cons s ss)
  define c where "c = length (chunk_lens (unat (size_buf s)))"
  define sd where "sd = seg_descs base k (unat (size_buf s)) (memory s)"
  define dm' where "dm' = take k dmadesc @ sd @ drop (k + length sd) dmadesc"
  have lsd: "length sd = c" by (simp add: sd_def c_def seg_descs_length)
  have nd: "needed (s # ss) = c + needed ss" by (simp add: needed_Cons c_def)
  have fit: "k + length sd \<le> length dmadesc" using Cons.prems(4) nd lsd by simp
  have s: "memory s \<noteq> 0" "unat (size_buf s) < 2 ^ 31" using Cons.prems(1) by simp_all
  have w: "fill_while base dmadesc n (size_buf s) (memory s) = Inr (dm', of_nat (k + c))"
    unfolding dm'_def sd_def lsd [unfolded sd_def] c_def
    using s(2) Cons.prems(3) fit [unfolded lsd c_def] Cons.prems(5)
    by (rule fill_while_spec)
  have l': "length dm' = length dmadesc"
    unfolding dm'_def using fit by (rule length_splice)
  have ih: "fill_for base dm' (of_nat (k + c)) (ss @ t # rest) =
      Inr (take (k + c) dm' @ all_descs base (k + c) ss @ drop (k + c + needed ss) dm',
           of_nat (k + c + needed ss))"
  proof (rule Cons.IH)
    show "\<forall>s\<in>set ss. memory s \<noteq> 0 \<and> unat (size_buf s) < 2 ^ 31"
      using Cons.prems(1) by simp
    show "memory t = 0" by (rule Cons.prems(2))
    show "(of_nat (k + c) :: c_int) = of_nat (k + c)" ..
    show "k + c + needed ss \<le> length dm'" using Cons.prems(4) nd l' by simp
    show "length dm' < 2 ^ 31" using Cons.prems(5) l' by simp
  qed
  have t: "take (k + c) dm' = take k dmadesc @ sd"
    unfolding dm'_def lsd [symmetric] using fit by (rule take_splice)
  have d: "drop (k + c + needed ss) dm' = drop (k + c + needed ss) dmadesc"
    unfolding dm'_def lsd [symmetric] using fit by (rule drop_splice)
  have step: "fill_for base dmadesc n ((s # ss) @ t # rest) =
      fill_for base dm' (of_nat (k + c)) (ss @ t # rest)"
    using s(1) w by simp
  have a: "all_descs base k (s # ss) = sd @ all_descs base (k + c) ss"
    by (simp add: sd_def c_def)
  show ?case
    unfolding step ih t d nd a by (simp add: add.assoc)
qed

lemma calc_step:
  assumes "unat (sz :: c_uint) < 2 ^ 31"
  shows "(sz + DMA_MAX - 1) div DMA_MAX = of_nat ((unat sz + 4091) div 4092)"
proof -
  have e: "sz + DMA_MAX - 1 = sz + 4091" by (simp add: DMA_MAX_def)
  have "unat sz + unat (4091 :: c_uint) < 2 ^ LENGTH(32)" using assms by simp
  then have "unat (sz + 4091) = unat sz + unat (4091 :: c_uint)"
    by (simp only: unat_add_lem)
  then have u: "unat (sz + 4091) = unat sz + 4091" by simp
  have "(sz + 4091) div DMA_MAX = of_nat (unat (sz + 4091) div unat DMA_MAX)"
    by (rule word_arith_nat_div)
  then show ?thesis unfolding e u by (simp add: DMA_MAX_def)
qed

lemma calc_loop_spec:
  assumes "\<forall>s\<in>set segs. memory s \<noteq> 0 \<and> unat (size_buf s) < 2 ^ 31"
    and "memory t = 0"
  shows "calc_loop (segs @ t # rest) ret = Inr (ret + of_nat (needed segs))"
  using assms
proof (induction segs arbitrary: ret)
  case Nil
  then show ?case by simp
next
  case (Cons s ss)
  then show ?case
    by (simp add: calc_step needed_Cons chunk_lens_length add.assoc)
qed



lemma all_descs_size:
  "map (\<lambda>d. unat (size_desc d)) (all_descs base k segs)
     = concat (map (\<lambda>s. chunk_lens (unat (size_buf s))) segs)"
  by (induction segs arbitrary: k) (simp_all add: seg_descs_size)

lemma all_descs_len:
  "map (\<lambda>d. unat (length_desc d)) (all_descs base k segs)
     = concat (map (\<lambda>s. chunk_lens (unat (size_buf s))) segs)"
  by (induction segs arbitrary: k) (simp_all add: seg_descs_len)

lemma map_update_same:
  assumes "f y = f (xs ! i)"
  shows "map f (xs[i := y]) = map f xs"
proof (rule nth_equalityI)
  show "length (map f (xs[i := y])) = length (map f xs)" by simp
next
  fix j
  assume "j < length (map f (xs[i := y]))"
  then have j: "j < length xs" by simp
  show "map f (xs[i := y]) ! j = map f xs ! j"
  proof (cases "j = i")
    case True
    then show ?thesis using j assms by simp
  next
    case False
    then show ?thesis using j by simp
  qed
qed

lemma ring_of_length: "length (ring_of base segs) = needed segs"
  by (simp add: ring_of_def Let_def all_descs_length)

lemma ring_of_size:
  "map (\<lambda>d. unat (size_desc d)) (ring_of base segs)
     = concat (map (\<lambda>s. chunk_lens (unat (size_buf s))) segs)"
  unfolding ring_of_def Let_def all_descs_size [of base 0 segs, symmetric]
  by (rule map_update_same) simp

lemma ring_of_len:
  "map (\<lambda>d. unat (length_desc d)) (ring_of base segs)
     = concat (map (\<lambda>s. chunk_lens (unat (size_buf s))) segs)"
  unfolding ring_of_def Let_def all_descs_len [of base 0 segs, symmetric]
  by (rule map_update_same) simp


lemma sint_of_nat_pred:
  assumes "0 < N" "N < 2 ^ 31"
  shows "sint (of_nat N - 1 :: c_int) = int (N - 1)"
proof -
  obtain M where M: "N = Suc M" using assms(1) by (cases N) simp_all
  have "(of_nat N - 1 :: c_int) = of_nat M" by (simp add: M)
  moreover have "M < 2 ^ 31" using assms(2) M by simp
  ultimately show ?thesis by (simp add: sint_of_nat_32 M)
qed

lemma fill_dma_desc_spec:
  assumes good: "\<forall>s\<in>set segs. memory s \<noteq> 0 \<and> unat (size_buf s) < 2 ^ 31"
    and t: "memory t = 0"
    and len: "length dmadesc = needed segs"
    and pos: "0 < needed segs" and small: "needed segs < 2 ^ 31"
  shows "fill_dma_desc base dmadesc (segs @ t # rest) = Inr (ring_of base segs)"
proof -
  have f: "fill_for base dmadesc 0 (segs @ t # rest) =
      Inr (all_descs base 0 segs, of_nat (needed segs))"
    using fill_for_spec [OF good t, of 0 0 dmadesc base rest] len small
    by (simp add: all_descs_length)
  have i: "sint (of_nat (needed segs) - 1 :: c_int) = int (needed segs - 1)"
    using pos small by (rule sint_of_nat_pred)
  have n: "nat (int (needed segs - 1)) = needed segs - 1" by simp
  have r: "0 \<le> int (needed segs - 1) \<and>
      int (needed segs - 1) < int (length (all_descs base 0 segs))"
    using pos by (simp add: all_descs_length)
  show ?thesis
    unfolding fill_dma_desc_def f sum.case prod.case Let_def i n ring_of_def all_descs_length
    using r pos by simp
qed

text \<open>
  When no descriptor is needed, \<open>n\<close> is still 0 after the loops and the closing
  statement addresses \<open>dmadesc[-1]\<close>.
\<close>

lemma fill_dma_desc_none:
  assumes good: "\<forall>s\<in>set segs. memory s \<noteq> 0 \<and> unat (size_buf s) < 2 ^ 31"
    and t: "memory t = 0"
    and zero: "needed segs = 0" and small: "length dmadesc < 2 ^ 31"
  shows "fill_dma_desc base dmadesc (segs @ t # rest) = Inl OutOfBounds"
proof -
  have f: "fill_for base dmadesc 0 (segs @ t # rest) = Inr (dmadesc, 0)"
    using fill_for_spec [OF good t, of 0 0 dmadesc base rest] zero small
    all_descs_length [of base 0 segs]
    by simp
  show ?thesis
    unfolding fill_dma_desc_def f by simp
qed

lemma calc_spec:
  assumes "\<forall>s\<in>set segs. memory s \<noteq> 0 \<and> unat (size_buf s) < 2 ^ 31"
    and "memory t = 0"
  shows "calc_needed_dma_descs_for (segs @ t # rest) = Inr (of_nat (needed segs))"
  using calc_loop_spec [OF assms, of rest 0] by (simp add: calc_needed_dma_descs_for_def)










lemma seg_descs_same: "d \<in> set (seg_descs base k len data) \<Longrightarrow> length_desc d = size_desc d"
proof (induction base k len data rule: seg_descs.induct)
  case (1 base k len data)
  then show ?case
    by (cases "len = 0") (auto simp: seg_descs_pos)
qed

lemma all_descs_same: "d \<in> set (all_descs base k segs) \<Longrightarrow> length_desc d = size_desc d"
  by (induction segs arbitrary: k) (auto dest: seg_descs_same)

lemma all_descs_bound:
  assumes "d \<in> set (all_descs base k segs)"
  shows "unat (size_desc d) \<le> 4092"
proof -
  have "unat (size_desc d) \<in> set (map (\<lambda>d. unat (size_desc d)) (all_descs base k segs))"
    using assms by simp
  then have "unat (size_desc d) \<in> (\<Union>s\<in>set segs. set (chunk_lens (unat (size_buf s))))"
    unfolding all_descs_size by simp
  then show ?thesis using chunk_lens_bound by blast
qed

lemma seg_descs_sum: "(\<Sum>d\<leftarrow>seg_descs base k len data. unat (size_desc d)) = len"
  by (simp only: seg_descs_size chunk_lens_sum)

lemma all_descs_sum:
  "(\<Sum>d\<leftarrow>all_descs base k segs. unat (size_desc d)) = (\<Sum>s\<leftarrow>segs. unat (size_buf s))"
  by (induction segs arbitrary: k) (simp_all add: seg_descs_sum)

lemma ceil_total_le_needed:
  "((\<Sum>s\<leftarrow>segs. unat (size_buf s)) + 4091) div 4092 \<le> needed segs"
proof (induction segs)
  case Nil
  show ?case by simp
next
  case (Cons s ss)
  have up: "a \<le> 4092 * ((a + 4091) div 4092)" for a :: nat
  proof -
    have "a + 4091 = 4092 * ((a + 4091) div 4092) + (a + 4091) mod 4092" by simp
    moreover have "(a + 4091) mod 4092 < 4092" by simp
    ultimately show ?thesis by linarith
  qed
  have "(a + b + 4091) div 4092 \<le> (a + 4091) div 4092 + (b + 4091) div 4092" for a b :: nat
  proof -
    have "a + b + 4091 \<le> 4091 + ((a + 4091) div 4092 + (b + 4091) div 4092) * 4092"
      using up [of a] up [of b] by (simp add: algebra_simps)
    then have "(a + b + 4091) div 4092
        \<le> (4091 + ((a + 4091) div 4092 + (b + 4091) div 4092) * 4092) div 4092"
      by (rule div_le_mono)
    then show ?thesis by simp
  qed
  from this [of "unat (size_buf s)" "\<Sum>s\<leftarrow>ss. unat (size_buf s)"] Cons show ?case
    by (simp add: needed_def)
qed

lemma fill_for_all:
  assumes good: "\<forall>s\<in>set segs. memory s \<noteq> 0 \<and> unat (size_buf s) < 2 ^ 31"
    and t: "memory t = 0"
    and len: "length dmadesc = needed segs" and small: "needed segs < 2 ^ 31"
  shows "fill_for base dmadesc 0 (segs @ t # rest) =
           Inr (all_descs base 0 segs, of_nat (needed segs))"
  using fill_for_spec [OF good t, of 0 0 dmadesc base rest] len small
  by (simp add: all_descs_length)

lemma chunk_lens_nonempty: "0 < len \<Longrightarrow> 0 < length (chunk_lens len)"
  by (simp add: chunk_lens_pos)




lemma heap_caps_malloc_length:
  "N < 2 ^ 31 \<Longrightarrow> length (heap_caps_malloc (of_nat N) junk) = N"
  by (simp add: heap_caps_malloc_def sint_of_nat_32)

lemma setup_configures_both_rings:
  assumes ga: "\<forall>s\<in>set segs_a. memory s \<noteq> 0 \<and> unat (size_buf s) < 2 ^ 31"
    and ta: "memory t_a = 0"
    and na: "0 < needed segs_a" "needed segs_a < 2 ^ 31"
    and gb: "\<forall>s\<in>set segs_b. memory s \<noteq> 0 \<and> unat (size_buf s) < 2 ^ 31"
    and tb: "memory t_b = 0"
    and nb: "0 < needed segs_b" "needed segs_b < 2 ^ 31"
  shows "i2s_parallel_setup st dev (segs_a @ t_a # rest_a) (Some (segs_b @ t_b # rest_b)) junk
    = Inr (st(i2snum dev \<mapsto>
        \<lparr>dmadesc_a = ring_of RingA segs_a, dmadesc_b = ring_of RingB segs_b,
         desccount_a = of_nat (needed segs_a), desccount_b = of_nat (needed segs_b)\<rparr>))"
proof -
  have ca: "calc_needed_dma_descs_for (segs_a @ t_a # rest_a) = Inr (of_nat (needed segs_a))"
    using ga ta by (rule calc_spec)
  have cb: "calc_needed_dma_descs_for (segs_b @ t_b # rest_b) = Inr (of_nat (needed segs_b))"
    using gb tb by (rule calc_spec)
  have fa: "fill_dma_desc RingA (heap_caps_malloc (of_nat (needed segs_a)) junk)
      (segs_a @ t_a # rest_a) = Inr (ring_of RingA segs_a)"
    using ga ta heap_caps_malloc_length [OF na(2)] na by (rule fill_dma_desc_spec)
  have fb: "fill_dma_desc RingB (heap_caps_malloc (of_nat (needed segs_b)) junk)
      (segs_b @ t_b # rest_b) = Inr (ring_of RingB segs_b)"
    using gb tb heap_caps_malloc_length [OF nb(2)] nb by (rule fill_dma_desc_spec)
  show ?thesis
    by (simp add: i2s_parallel_setup_def ca cb fa fb)
qed

text \<open>
  Claim C3, amended. For every sentinel-terminated list of buffer segments whose
  sizes, and whose descriptor count, fit a C \<open>int\<close>, the counting pass returns
  the sum over the segments of \<open>size / DMA_MAX\<close> rounded up; this is at least
  the total size divided by \<open>DMA_MAX\<close> rounded up. The fill loops write exactly
  that many descriptors, every chunk length is at most \<open>DMA_MAX\<close>, the chunk
  lengths sum exactly to the total size, and, when there is at least one
  descriptor, the closing step leaves the lengths as they are. For a single
  segment the count is the total size divided by \<open>DMA_MAX\<close> rounded up. Both
  passes stop at the sentinel: what follows it in the array is not read.
\<close>

theorem builder_count_and_chunks:
  assumes bd: "bufdesc = segs @ t # rest"
    and good: "\<forall>s\<in>set segs. memory s \<noteq> 0 \<and> unat (size_buf s) < 2 ^ 31"
    and t: "memory t = 0"
    and small: "needed segs < 2 ^ 31"
    and len: "length dmadesc = needed segs"
  shows "(\<exists>ret. calc_needed_dma_descs_for bufdesc = Inr ret \<and> sint ret = int (needed segs)) \<and>
    (\<exists>descs n. fill_for base dmadesc 0 bufdesc = Inr (descs, n) \<and>
       sint n = int (needed segs) \<and> length descs = needed segs \<and>
       (\<forall>d\<in>set descs. unat (size_desc d) \<le> unat DMA_MAX \<and> length_desc d = size_desc d) \<and>
       (\<Sum>d\<leftarrow>descs. unat (size_desc d)) = (\<Sum>s\<leftarrow>segs. unat (size_buf s)) \<and>
       (0 < needed segs \<longrightarrow>
          (\<exists>ring. fill_dma_desc base dmadesc bufdesc = Inr ring \<and>
             map size_desc ring = map size_desc descs \<and>
             map length_desc ring = map length_desc descs))) \<and>
    needed segs = (\<Sum>s\<leftarrow>segs. (unat (size_buf s) + unat DMA_MAX - 1) div unat DMA_MAX) \<and>
    ((\<Sum>s\<leftarrow>segs. unat (size_buf s)) + unat DMA_MAX - 1) div unat DMA_MAX \<le> needed segs \<and>
    (length segs = 1 \<longrightarrow>
       needed segs = ((\<Sum>s\<leftarrow>segs. unat (size_buf s)) + unat DMA_MAX - 1) div unat DMA_MAX) \<and>
    calc_needed_dma_descs_for bufdesc = calc_needed_dma_descs_for (segs @ [t]) \<and>
    fill_for base dmadesc 0 bufdesc = fill_for base dmadesc 0 (segs @ [t])"
proof -
  have u: "unat DMA_MAX = 4092" by (simp add: DMA_MAX_def)
  have sn: "sint (of_nat (needed segs) :: c_int) = int (needed segs)"
    using small by (rule sint_of_nat_32)
  have c: "calc_needed_dma_descs_for (segs @ t # r) = Inr (of_nat (needed segs))" for r
    using good t by (rule calc_spec)
  have f: "fill_for base dmadesc 0 (segs @ t # r) = Inr (all_descs base 0 segs, of_nat (needed segs))"
    for r
    using good t len small by (rule fill_for_all)
  have r: "fill_dma_desc base dmadesc bufdesc = Inr (ring_of base segs)" if "0 < needed segs"
    unfolding bd using good t len that small by (rule fill_dma_desc_spec)
  have m1: "map size_desc (ring_of base segs) = map size_desc (all_descs base 0 segs)"
    unfolding ring_of_def Let_def by (rule map_update_same) simp
  have m2: "map length_desc (ring_of base segs) = map length_desc (all_descs base 0 segs)"
    unfolding ring_of_def Let_def by (rule map_update_same) simp
  have p: "\<forall>d\<in>set (all_descs base 0 segs).
      unat (size_desc d) \<le> unat DMA_MAX \<and> length_desc d = size_desc d"
    unfolding u using all_descs_bound all_descs_same by blast
  have n: "needed segs = (\<Sum>s\<leftarrow>segs. (unat (size_buf s) + unat DMA_MAX - 1) div unat DMA_MAX)"
    unfolding u needed_def by (simp add: add.commute)
  have ce: "((\<Sum>s\<leftarrow>segs. unat (size_buf s)) + unat DMA_MAX - 1) div unat DMA_MAX \<le> needed segs"
    unfolding u using ceil_total_le_needed [of segs] by simp
  have count: "\<exists>ret. calc_needed_dma_descs_for bufdesc = Inr ret \<and> sint ret = int (needed segs)"
    unfolding bd c using sn by simp
  have ex: "\<exists>descs n. fill_for base dmadesc 0 bufdesc = Inr (descs, n) \<and>
       sint n = int (needed segs) \<and> length descs = needed segs \<and>
       (\<forall>d\<in>set descs. unat (size_desc d) \<le> unat DMA_MAX \<and> length_desc d = size_desc d) \<and>
       (\<Sum>d\<leftarrow>descs. unat (size_desc d)) = (\<Sum>s\<leftarrow>segs. unat (size_buf s)) \<and>
       (0 < needed segs \<longrightarrow>
          (\<exists>ring. fill_dma_desc base dmadesc bufdesc = Inr ring \<and>
             map size_desc ring = map size_desc descs \<and>
             map length_desc ring = map length_desc descs))"
  proof (intro exI conjI impI)
    show "fill_for base dmadesc 0 bufdesc = Inr (all_descs base 0 segs, of_nat (needed segs))"
      unfolding bd by (rule f)
    show "sint (of_nat (needed segs) :: c_int) = int (needed segs)" by (rule sn)
    show "length (all_descs base 0 segs) = needed segs" by (rule all_descs_length)
    show "\<forall>d\<in>set (all_descs base 0 segs).
      unat (size_desc d) \<le> unat DMA_MAX \<and> length_desc d = size_desc d" by (rule p)
    show "(\<Sum>d\<leftarrow>all_descs base 0 segs. unat (size_desc d)) = (\<Sum>s\<leftarrow>segs. unat (size_buf s))"
      by (rule all_descs_sum)
    show "fill_dma_desc base dmadesc bufdesc = Inr (ring_of base segs)" if "0 < needed segs"
      using that by (rule r)
    show "map size_desc (ring_of base segs) = map size_desc (all_descs base 0 segs)" by (rule m1)
    show "map length_desc (ring_of base segs) = map length_desc (all_descs base 0 segs)" by (rule m2)
  qed
  have one: "needed segs = ((\<Sum>s\<leftarrow>segs. unat (size_buf s)) + unat DMA_MAX - 1) div unat DMA_MAX"
    if "length segs = 1"
  proof -
    from that obtain s where "segs = [s]"
      by (cases segs) simp_all
    then show ?thesis unfolding u by (simp add: needed_def add.commute)
  qed
  have stop: "calc_needed_dma_descs_for bufdesc = calc_needed_dma_descs_for (segs @ [t])"
    "fill_for base dmadesc 0 bufdesc = fill_for base dmadesc 0 (segs @ [t])"
    unfolding bd c f by simp_all
  show ?thesis
    using count ex n ce one stop by blast
qed



lemma example_needed: "needed [seg 0x3FFB0000 4096, seg 0x3FFB1000 4096] = 4"
  by (simp add: needed_def seg_def)

lemma example_calc:
  "calc_needed_dma_descs_for [seg 0x3FFB0000 4096, seg 0x3FFB1000 4096, seg 0 0] = Inr 4"
  by (simp add: calc_needed_dma_descs_for_def seg_def DMA_MAX_def)

text \<open>
  Claim C3, as stated, gives the count as the total size divided by the maximum
  transfer unit, rounded up. Two segments of 4096 bytes, the size of a bitplane
  in \<open>app_main\<close>, need 4 descriptors, and 8192 bytes divided by 4092 is 3 after
  rounding up.
\<close>

theorem builder_count_counterexample:
  "calc_needed_dma_descs_for [seg 0x3FFB0000 4096, seg 0x3FFB1000 4096, seg 0 0] = Inr 4 \<and>
   (4096 + 4096 + unat DMA_MAX - 1) div unat DMA_MAX = 3"
  by (simp add: example_calc DMA_MAX_def)

theorem builder_count_and_chunks_witness:
  "calc_needed_dma_descs_for [seg 0x3FFB0000 4096, seg 0x3FFB1000 4096, seg 0 0] = Inr 4 \<and>
   (\<exists>descs n ring.
      fill_for RingA (replicate 4 d0) 0 [seg 0x3FFB0000 4096, seg 0x3FFB1000 4096, seg 0 0]
        = Inr (descs, n) \<and>
      sint n = 4 \<and> length descs = 4 \<and>
      (\<Sum>d\<leftarrow>descs. unat (size_desc d)) = 8192 \<and>
      fill_dma_desc RingA (replicate 4 d0) [seg 0x3FFB0000 4096, seg 0x3FFB1000 4096, seg 0 0]
        = Inr ring \<and>
      map size_desc ring = map size_desc descs)"
  using builder_count_and_chunks [of
      "[seg 0x3FFB0000 4096, seg 0x3FFB1000 4096, seg 0 0]"
      "[seg 0x3FFB0000 4096, seg 0x3FFB1000 4096]" "seg 0 0" "[]" "replicate 4 d0" RingA]
  by (simp add: example_needed example_calc) (auto simp: seg_def)



section \<open>Setup followed by a flip\<close>

theorem flip_retargets_both_tails_witness:
  "\<exists>st st' s'.
     i2s_parallel_setup i2s_state_init I2S1
       [seg 0x3FFB0000 4096, seg 0x3FFB1000 4096, seg 0 0]
       (Some [seg 0x3FFB2000 4096, seg 0x3FFB3000 4096, seg 0 0]) d0 = Inr st \<and>
     i2s_parallel_flip_to_buffer () st I2S1 1 = Inr ((), st') \<and>
     st' 1 = Some s' \<and>
     length (dmadesc_a s') = 4 \<and> length (dmadesc_b s') = 4 \<and>
     stqe_next (dmadesc_a s' ! 3) = DescPtr RingB 0 \<and>
     stqe_next (dmadesc_b s' ! 3) = DescPtr RingB 0"
proof -
  let ?a = "[seg 0x3FFB0000 4096, seg 0x3FFB1000 4096]"
  let ?b = "[seg 0x3FFB2000 4096, seg 0x3FFB3000 4096]"
  let ?s = "\<lparr>dmadesc_a = ring_of RingA ?a, dmadesc_b = ring_of RingB ?b,
             desccount_a = 4, desccount_b = 4\<rparr>"
  let ?st = "i2s_state_init(1 \<mapsto> ?s)"
  have na: "needed ?a = 4" by (simp add: needed_def seg_def)
  have nb: "needed ?b = 4" by (simp add: needed_def seg_def)
  have built: "i2s_parallel_setup i2s_state_init I2S1 (?a @ seg 0 0 # [])
      (Some (?b @ seg 0 0 # [])) d0 = Inr ?st"
    using setup_configures_both_rings [of ?a "seg 0 0" ?b "seg 0 0" i2s_state_init I2S1 "[]" "[]" d0]
    by (simp add: na nb) (simp add: seg_def)
  have "\<exists>st' s'. i2s_parallel_flip_to_buffer () ?st I2S1 1 = Inr ((), st') \<and>
           st' (i2snum I2S1) = Some s' \<and>
           length (dmadesc_a s') = length (dmadesc_a ?s) \<and>
           length (dmadesc_b s') = length (dmadesc_b ?s) \<and>
           stqe_next (dmadesc_a s' ! (length (dmadesc_a s') - 1))
             = DescPtr (if (1 :: c_int) = 0 then RingA else RingB) 0 \<and>
           stqe_next (dmadesc_b s' ! (length (dmadesc_b s') - 1))
             = DescPtr (if (1 :: c_int) = 0 then RingA else RingB) 0"
    by (rule flip_retargets_both_tails) (simp_all add: ring_of_length na nb)
  then obtain st' s' where "i2s_parallel_flip_to_buffer () ?st I2S1 1 = Inr ((), st')"
    and "st' 1 = Some s'"
    and "length (dmadesc_a s') = 4" and "length (dmadesc_b s') = 4"
    and "stqe_next (dmadesc_a s' ! (length (dmadesc_a s') - 1)) = DescPtr RingB 0"
    and "stqe_next (dmadesc_b s' ! (length (dmadesc_b s') - 1)) = DescPtr RingB 0"
    by (auto simp: ring_of_length na nb)
  then show ?thesis using built by (intro exI [of _ ?st] exI [of _ st'] exI [of _ s']) simp
qed

end
